theory Spec2Isabelle
  imports Main "HOL-Library.Word" "HOL-Library.AList"
begin

section \<open>The key-value store of kv\_store.h and its implementation\<close>

text \<open>
  The development embeds the C functions \<^verbatim>\<open>duplicate_string\<close>, \<^verbatim>\<open>store_create\<close>,
  \<^verbatim>\<open>store_destroy\<close>, \<^verbatim>\<open>store_add_or_update_item\<close> and \<^verbatim>\<open>store_get_value\<close>
  and the worker of the demonstration program.

  Conventions of the embedding.
  \<^item> A C string is the list of its bytes before the terminating NUL, so \<^verbatim>\<open>strcmp(a, b) == 0\<close>
    is equality of two values of type \<open>string\<close>. A \<^verbatim>\<open>const char*\<close> argument that may be
    \<^verbatim>\<open>NULL\<close> is a \<open>string option\<close>.
  \<^item> The character blocks that the store owns live in an explicit heap: \<open>live h a\<close> is the
    content of the block at address \<open>a\<close>, or \<open>None\<close> when no block is allocated there.
    The pairs of the store hold addresses, as the \<^verbatim>\<open>char*\<close> fields of \<^verbatim>\<open>KeyValuePair\<close> do.
  \<^item> Whether an allocation request succeeds is not decided by the program. The heap carries
    the outcomes of the coming requests (\<open>grants\<close>, \<open>True\<close> for a request that is
    granted); a theorem about every heap is a theorem about every behaviour of the allocator.
  \<^item> The flexible array member \<^verbatim>\<open>pairs[]\<close> and the field \<^verbatim>\<open>item_count\<close> are modelled
    together by the list of the initialised slots \<^verbatim>\<open>pairs[0..item_count)\<close>; the slots from
    \<^verbatim>\<open>item_count\<close> up to \<^verbatim>\<open>capacity\<close> are uninitialised memory that the code never reads.
  \<^item> \<^verbatim>\<open>size_t\<close> has 64 bits (an LP64 platform with glibc). The argument of
    \<^verbatim>\<open>store_create\<close> is a 64-bit word; the members \<^verbatim>\<open>capacity\<close> and \<^verbatim>\<open>item_count\<close> are
    natural numbers, and what the code computes from them, \<^verbatim>\<open>capacity * 2\<close> and the byte
    count \<^verbatim>\<open>sizeof(KeyValueStore) + n * sizeof(KeyValuePair)\<close> handed to \<^verbatim>\<open>malloc\<close> and
    \<^verbatim>\<open>realloc\<close> are computed modulo \<open>2 ^ 64\<close>, with \<^verbatim>\<open>sizeof(mtx_t)\<close> 40,
    \<^verbatim>\<open>sizeof(KeyValueStore)\<close> 64 and \<^verbatim>\<open>sizeof(KeyValuePair)\<close> 16. The number of pairs
    that the block of the store really has room for is kept beside the members of the struct
    (\<open>room\<close>); it is what the byte count of the last allocation leaves after the header.
    The allocator grants no block of more than \<^verbatim>\<open>PTRDIFF_MAX\<close> bytes.
  \<^item> \<^verbatim>\<open>atomic_uint add_count\<close> is a 32-bit word: \<^verbatim>\<open>atomic_fetch_add\<close> wraps around.
  \<^item> What C leaves undefined (reading or freeing a block that is not allocated, reading or
    writing behind the block of the store, locking a plain mutex that is already locked) is
    a \<open>fault\<close>, returned as \<open>Inl\<close>.
\<close>

subsection \<open>Data\<close>

type_synonym addr = nat

type_synonym size_t = "64 word"

record KeyValuePair =
  key :: addr
  "value" :: addr

text \<open>The members of the struct, and \<open>room\<close>: the number of pairs that fit into the block
  in which the struct lies. \<open>room\<close> is no member; \<^verbatim>\<open>malloc\<close> and \<^verbatim>\<open>realloc\<close> fix it.\<close>

record KeyValueStore =
  mutex :: bool
  add_count :: "32 word"
  capacity :: nat
  pairs :: "KeyValuePair list"
  room :: nat

definition item_count :: "KeyValueStore \<Rightarrow> nat" where
  "item_count s = length (pairs s)"

record heap =
  live :: "addr \<Rightarrow> string option"
  brk :: addr
  grants :: "bool list"

datatype fault = Dangling_Read | Invalid_Free | Out_Of_Bounds | Relock

subsection \<open>Sizes\<close>

text \<open>\<open>SIZE_MODULUS\<close> is \<^verbatim>\<open>SIZE_MAX + 1\<close>.\<close>

definition SIZE_MODULUS :: nat where
  "SIZE_MODULUS = 2 ^ 64"

definition PTRDIFF_MAX :: nat where
  "PTRDIFF_MAX = 2 ^ 63 - 1"

definition sizeof_mtx_t :: nat where
  "sizeof_mtx_t = 40"

definition sizeof_KeyValueStore :: nat where
  "sizeof_KeyValueStore = 64"

definition sizeof_KeyValuePair :: nat where
  "sizeof_KeyValuePair = 16"

text \<open>The byte count \<^verbatim>\<open>sizeof(KeyValueStore) + n * sizeof(KeyValuePair)\<close>, in \<^verbatim>\<open>size_t\<close>.\<close>

definition store_bytes :: "nat \<Rightarrow> nat" where
  "store_bytes n = (sizeof_KeyValueStore + n * sizeof_KeyValuePair) mod SIZE_MODULUS"

text \<open>The number of pairs that fit into a block of so many bytes behind the header.\<close>

definition slots :: "nat \<Rightarrow> nat" where
  "slots bytes = (bytes - sizeof_KeyValueStore) div sizeof_KeyValuePair"

subsection \<open>The allocator\<close>

text \<open>The next allocation request: granted or refused, as \<open>grants\<close> says; an exhausted
  list refuses.\<close>

definition grant :: "heap \<Rightarrow> bool \<times> heap" where
  "grant h = (case grants h of
                [] \<Rightarrow> (False, h)
              | ok # rest \<Rightarrow> (ok, h\<lparr>grants := rest\<rparr>))"

text \<open>A request for the block of a store, of the given number of bytes.\<close>

definition grant_bytes :: "nat \<Rightarrow> heap \<Rightarrow> bool \<times> heap" where
  "grant_bytes bytes h = (if PTRDIFF_MAX < bytes then (False, h) else grant h)"

text \<open>\<^verbatim>\<open>free(p)\<close>: nothing for \<^verbatim>\<open>NULL\<close>, otherwise the block at \<open>p\<close> is released.\<close>

definition free :: "addr option \<Rightarrow> heap \<Rightarrow> fault + heap" where
  "free p h = (case p of
                 None \<Rightarrow> Inr h
               | Some a \<Rightarrow> (case live h a of
                     None \<Rightarrow> Inl Invalid_Free
                   | Some old \<Rightarrow> Inr (h\<lparr>live := (live h)(a := None)\<rparr>)))"

text \<open>\<^verbatim>\<open>duplicate_string\<close>: \<^verbatim>\<open>NULL\<close> for \<^verbatim>\<open>NULL\<close>; otherwise \<^verbatim>\<open>malloc\<close> and, when it
  succeeds, \<^verbatim>\<open>memcpy\<close> of the source with its terminator into the new block, which sits at
  an address never used before.\<close>

definition duplicate_string :: "string option \<Rightarrow> heap \<Rightarrow> addr option \<times> heap" where
  "duplicate_string src h =
     (case src of
        None \<Rightarrow> (None, h)
      | Some bytes \<Rightarrow>
          (case grant h of
             (False, h') \<Rightarrow> (None, h')
           | (True, h') \<Rightarrow>
               (Some (brk h'),
                h'\<lparr>live := (live h')(brk h' \<mapsto> bytes), brk := Suc (brk h')\<rparr>)))"

subsection \<open>The mutex\<close>

definition mtx_lock :: "KeyValueStore \<Rightarrow> fault + KeyValueStore" where
  "mtx_lock s = (if mutex s then Inl Relock else Inr (s\<lparr>mutex := True\<rparr>))"

definition mtx_unlock :: "KeyValueStore \<Rightarrow> KeyValueStore" where
  "mtx_unlock s = s\<lparr>mutex := False\<rparr>"

subsection \<open>store\_create and store\_destroy\<close>

text \<open>\<open>mtx_ok\<close> is the outcome of \<^verbatim>\<open>mtx_init\<close>. The store block itself is not an address of
  the heap of strings; its allocation consumes one request. \<^verbatim>\<open>mtx_init\<close> writes the mutex
  at the start of the block, the assignments that follow write the other members: either is
  a write behind the block when the byte count has wrapped around to less.\<close>

definition store_create ::
  "size_t \<Rightarrow> bool \<Rightarrow> heap \<Rightarrow> fault + (KeyValueStore option \<times> heap)" where
  "store_create initial_capacity mtx_ok h =
     (let initial_capacity = (if initial_capacity = 0 then 8 else initial_capacity);
          bytes = store_bytes (unat initial_capacity) in
      case grant_bytes bytes h of
        (False, h') \<Rightarrow> Inr (None, h')
      | (True, h') \<Rightarrow>
          if bytes < sizeof_mtx_t then Inl Out_Of_Bounds
          else if \<not> mtx_ok then Inr (None, h')
          else if bytes < sizeof_KeyValueStore then Inl Out_Of_Bounds
          else Inr (Some \<lparr>mutex = False, add_count = 0,
                          capacity = unat initial_capacity, pairs = [], room = slots bytes\<rparr>, h'))"

fun free_pairs :: "KeyValuePair list \<Rightarrow> heap \<Rightarrow> fault + heap" where
  "free_pairs [] h = Inr h"
| "free_pairs (p # ps) h =
     (case free (Some (key p)) h of
        Inl e \<Rightarrow> Inl e
      | Inr h1 \<Rightarrow>
          (case free (Some (value p)) h1 of
             Inl e \<Rightarrow> Inl e
           | Inr h2 \<Rightarrow> free_pairs ps h2))"

definition store_destroy :: "KeyValueStore option \<Rightarrow> heap \<Rightarrow> fault + heap" where
  "store_destroy store h =
     (case store of
        None \<Rightarrow> Inr h
      | Some s \<Rightarrow>
          if room s < item_count s then Inl Out_Of_Bounds
          else free_pairs (pairs s) h)"

subsection \<open>The linear scan\<close>

text \<open>The loop \<^verbatim>\<open>for (i = 0; i < item_count; ++i) if (strcmp(pairs[i].key, key) == 0) ...\<close>
  of both operations: the index of the first slot whose key equals \<open>k\<close>. The list is the rest
  of the array from index \<open>i\<close> on, \<open>r\<close> the room of the block.\<close>

fun find_pair ::
  "heap \<Rightarrow> nat \<Rightarrow> KeyValuePair list \<Rightarrow> string \<Rightarrow> nat \<Rightarrow> fault + nat option" where
  "find_pair h r [] k i = Inr None"
| "find_pair h r (p # ps) k i =
     (if r \<le> i then Inl Out_Of_Bounds
      else case live h (key p) of
             None \<Rightarrow> Inl Dangling_Read
           | Some bytes \<Rightarrow> if bytes = k then Inr (Some i) else find_pair h r ps k (Suc i))"

subsection \<open>store\_add\_or\_update\_item\<close>

text \<open>The branch taken when the scan has found the key at index \<open>i\<close>. The store is locked.\<close>

definition update_item ::
  "KeyValueStore \<Rightarrow> nat \<Rightarrow> string \<Rightarrow> heap \<Rightarrow> fault + (bool \<times> KeyValueStore \<times> heap)" where
  "update_item s i v h =
     (case duplicate_string (Some v) h of
        (None, h1) \<Rightarrow> Inr (False, mtx_unlock s, h1)
      | (Some new_value, h1) \<Rightarrow>
          (case free (Some (value (pairs s ! i))) h1 of
             Inl e \<Rightarrow> Inl e
           | Inr h2 \<Rightarrow>
               Inr (True,
                    mtx_unlock (s\<lparr>pairs := (pairs s)[i := (pairs s ! i)\<lparr>value := new_value\<rparr>],
                                  add_count := add_count s + 1\<rparr>),
                    h2)))"

text \<open>The growth step: \<^verbatim>\<open>realloc\<close> to twice the capacity when the array is full. A
  successful \<^verbatim>\<open>realloc\<close> keeps the content of the block, as far as the new block has
  room for it; the assignment to \<^verbatim>\<open>capacity\<close> that follows is a write behind the block
  when the byte count has wrapped around to less than the header. (A byte count of zero, for
  which \<^verbatim>\<open>realloc\<close> may release the block, needs a full array of at least \<open>2 ^ 59 - 2\<close>
  pairs, more than a block that the allocator grants can hold.)\<close>

definition grow :: "KeyValueStore \<Rightarrow> heap \<Rightarrow> fault + (KeyValueStore option \<times> heap)" where
  "grow s h =
     (if item_count s \<ge> capacity s then
        (let new_capacity = (capacity s * 2) mod SIZE_MODULUS;
             bytes = store_bytes new_capacity in
         case grant_bytes bytes h of
           (False, h') \<Rightarrow> Inr (None, h')
         | (True, h') \<Rightarrow>
             if bytes < sizeof_KeyValueStore then Inl Out_Of_Bounds
             else Inr (Some (s\<lparr>capacity := new_capacity, room := slots bytes\<rparr>), h'))
      else Inr (Some s, h))"

text \<open>The branch taken when the scan has not found the key. The store is locked.\<close>

definition insert_item ::
  "KeyValueStore \<Rightarrow> string \<Rightarrow> string \<Rightarrow> heap \<Rightarrow> fault + (bool \<times> KeyValueStore \<times> heap)" where
  "insert_item s k v h =
     (case grow s h of
        Inl e \<Rightarrow> Inl e
      | Inr (None, h1) \<Rightarrow> Inr (False, mtx_unlock s, h1)
      | Inr (Some s1, h1) \<Rightarrow>
          (case duplicate_string (Some k) h1 of (new_key, h2) \<Rightarrow>
           case duplicate_string (Some v) h2 of (new_value, h3) \<Rightarrow>
             (case (new_key, new_value) of
                (Some nk, Some nv) \<Rightarrow>
                  if item_count s1 < room s1 then
                    Inr (True,
                         mtx_unlock (s1\<lparr>pairs := pairs s1 @ [\<lparr>key = nk, value = nv\<rparr>],
                                        add_count := add_count s1 + 1\<rparr>),
                         h3)
                  else Inl Out_Of_Bounds
              | _ \<Rightarrow>
                  (case free new_key h3 of
                     Inl e \<Rightarrow> Inl e
                   | Inr h4 \<Rightarrow>
                       (case free new_value h4 of
                          Inl e \<Rightarrow> Inl e
                        | Inr h5 \<Rightarrow> Inr (False, mtx_unlock s1, h5))))))"

text \<open>\<open>store_ptr\<close> is the \<^verbatim>\<open>KeyValueStore**\<close>: \<open>None\<close> is a null \<open>store_ptr\<close>,
  \<open>Some None\<close> a variable that holds \<^verbatim>\<open>NULL\<close>, \<open>Some (Some s)\<close> a variable that points
  to the store \<open>s\<close>. The result carries the variable as the call leaves it.\<close>

definition store_add_or_update_item ::
  "KeyValueStore option option \<Rightarrow> string option \<Rightarrow> string option \<Rightarrow> heap
     \<Rightarrow> fault + (bool \<times> KeyValueStore option option \<times> heap)" where
  "store_add_or_update_item store_ptr k v h =
     (case (store_ptr, k, v) of
        (Some (Some s), Some kb, Some vb) \<Rightarrow>
          (case mtx_lock s of
             Inl e \<Rightarrow> Inl e
           | Inr s0 \<Rightarrow>
               (case find_pair h (room s0) (pairs s0) kb 0 of
                  Inl e \<Rightarrow> Inl e
                | Inr found \<Rightarrow>
                    (case (case found of
                             Some i \<Rightarrow> update_item s0 i vb h
                           | None \<Rightarrow> insert_item s0 kb vb h) of
                       Inl e \<Rightarrow> Inl e
                     | Inr (ok, s', h') \<Rightarrow> Inr (ok, Some (Some s'), h'))))
      | _ \<Rightarrow> Inr (False, store_ptr, h))"

subsection \<open>store\_get\_value\<close>

text \<open>The result is the \<^verbatim>\<open>const char*\<close> (the address of the stored value, \<open>None\<close> for
  \<^verbatim>\<open>NULL\<close>) and the store as the call leaves it.\<close>

definition store_get_value ::
  "KeyValueStore option \<Rightarrow> string option \<Rightarrow> heap \<Rightarrow> fault + (addr option \<times> KeyValueStore option)" where
  "store_get_value store k h =
     (case (store, k) of
        (Some s, Some kb) \<Rightarrow>
          (case mtx_lock s of
             Inl e \<Rightarrow> Inl e
           | Inr s0 \<Rightarrow>
               (case find_pair h (room s0) (pairs s0) kb 0 of
                  Inl e \<Rightarrow> Inl e
                | Inr found \<Rightarrow>
                    Inr (case found of
                           None \<Rightarrow> None
                         | Some i \<Rightarrow> Some (value (pairs s0 ! i)),
                         Some (mtx_unlock s0))))
      | _ \<Rightarrow> Inr (None, store))"

subsection \<open>Callers\<close>

text \<open>A caller that issues upsert calls one after the other through the same store variable,
  as the loop of \<^verbatim>\<open>worker_thread\<close> does, and records what each call returned.\<close>

fun upserts ::
  "(string option \<times> string option) list \<Rightarrow> KeyValueStore option option \<Rightarrow> heap
     \<Rightarrow> fault + (bool list \<times> KeyValueStore option option \<times> heap)" where
  "upserts [] store_ptr h = Inr ([], store_ptr, h)"
| "upserts (c # cs) store_ptr h =
     (case store_add_or_update_item store_ptr (fst c) (snd c) h of
        Inl e \<Rightarrow> Inl e
      | Inr (ok, store_ptr', h') \<Rightarrow>
          (case upserts cs store_ptr' h' of
             Inl e \<Rightarrow> Inl e
           | Inr (oks, store_ptr'', h'') \<Rightarrow> Inr (ok # oks, store_ptr'', h'')))"

text \<open>A caller that creates a store, as \<^verbatim>\<open>main\<close> does, and issues its upsert calls through
  the variable that holds the result.\<close>

definition session ::
  "size_t \<Rightarrow> bool \<Rightarrow> (string option \<times> string option) list \<Rightarrow> heap
     \<Rightarrow> fault + (bool list \<times> KeyValueStore option option \<times> heap)" where
  "session initial_capacity mtx_ok cs h =
     (case store_create initial_capacity mtx_ok h of
        Inl e \<Rightarrow> Inl e
      | Inr (store, h') \<Rightarrow> upserts cs (Some store) h')"

text \<open>The demonstration program. \<^verbatim>\<open>snprintf\<close> with \<^verbatim>\<open>%d\<close> prints the thread number and the
  loop index, both non-negative, in decimal; the buffers of 64 bytes hold every key and
  value of the program without truncation.\<close>

definition NUM_THREADS :: nat where
  "NUM_THREADS = 4"

definition ITEMS_PER_THREAD :: nat where
  "ITEMS_PER_THREAD = 100"

definition digit_char :: "nat \<Rightarrow> char" where
  "digit_char d = ''0123456789'' ! d"

function dec :: "nat \<Rightarrow> string" where
  "dec n = (if n < 10 then [digit_char n] else dec (n div 10) @ [digit_char (n mod 10)])"
  by pat_completeness auto
termination
  by (relation "measure id") auto

declare dec.simps [simp del]

definition key_buffer :: "nat \<Rightarrow> nat \<Rightarrow> string" where
  "key_buffer thread_id i = ''key_t'' @ dec thread_id @ ''_i'' @ dec i"

definition value_buffer :: "nat \<Rightarrow> string" where
  "value_buffer thread_id = ''value_from_thread_'' @ dec thread_id"

text \<open>The calls of \<^verbatim>\<open>worker_thread\<close>, as the pairs of key and value it passes: the loop over
  its items, then the update of its first key. Each call is made with \<^verbatim>\<open>main_mutex\<close> held.\<close>

definition worker_thread :: "nat \<Rightarrow> nat \<Rightarrow> (string \<times> string) list" where
  "worker_thread items thread_id =
     map (\<lambda>i. (key_buffer thread_id i, value_buffer thread_id)) [0..<items]
     @ [(key_buffer thread_id 0, ''UPDATED_VALUE'')]"

text \<open>The orders in which the calls of concurrent threads can take \<^verbatim>\<open>main_mutex\<close>: every
  thread keeps its own order. \<open>xss ! t\<close> are the calls thread \<open>t\<close> has still to make.\<close>

inductive interleaving :: "'a list list \<Rightarrow> 'a list \<Rightarrow> bool" where
  interleaving_done:
    "\<forall>xs\<in>set xss. xs = [] \<Longrightarrow> interleaving xss []"
| interleaving_next:
    "t < length xss \<Longrightarrow> xss ! t = x # xs \<Longrightarrow> interleaving (xss[t := xs]) zs
       \<Longrightarrow> interleaving xss (x # zs)"

text \<open>What a finished run reports: the results of the calls, and the fields of the store.\<close>

definition returned ::
  "fault + (bool list \<times> KeyValueStore option option \<times> heap) \<Rightarrow> bool list option" where
  "returned r = (case r of Inl e \<Rightarrow> None | Inr (oks, store_ptr, h) \<Rightarrow> Some oks)"

definition final_store ::
  "fault + (bool list \<times> KeyValueStore option option \<times> heap) \<Rightarrow> KeyValueStore option" where
  "final_store r = (case r of Inr (oks, Some (Some s), h) \<Rightarrow> Some s | _ \<Rightarrow> None)"

text \<open>A heap without any block, with the given outcomes of the coming requests.\<close>

definition empty_heap :: "bool list \<Rightarrow> heap" where
  "empty_heap gs = \<lparr>live = (\<lambda>a. None), brk = 0, grants = gs\<rparr>"

text \<open>The store that \<^verbatim>\<open>store_create(1)\<close> followed by the upsert of \<^verbatim>\<open>"a"\<close>, \<^verbatim>\<open>"x"\<close>
  produces on the empty heap: one entry, no room left. Its heap takes the outcomes of the
  coming requests as a parameter.\<close>

definition full_store :: KeyValueStore where
  "full_store = \<lparr>mutex = False, add_count = 1, capacity = 1, pairs = [\<lparr>key = 0, value = 1\<rparr>],
                  room = 1\<rparr>"

definition full_heap :: "bool list \<Rightarrow> heap" where
  "full_heap gs = \<lparr>live = (\<lambda>a. None)(0 \<mapsto> ''a'', 1 \<mapsto> ''x''), brk = 2, grants = gs\<rparr>"

text \<open>The store after \<^verbatim>\<open>store_create(1)\<close> and the inserts of \<^verbatim>\<open>"a"\<close>, \<^verbatim>\<open>"b"\<close> and
  \<^verbatim>\<open>"c"\<close>, which grow the array twice, and its heap.\<close>

definition grown_store :: KeyValueStore where
  "grown_store = \<lparr>mutex = False, add_count = 3, capacity = 4,
     pairs = [\<lparr>key = 0, value = 1\<rparr>, \<lparr>key = 2, value = 3\<rparr>, \<lparr>key = 4, value = 5\<rparr>],
     room = 4\<rparr>"

definition grown_heap :: "bool list \<Rightarrow> heap" where
  "grown_heap gs = \<lparr>live = (\<lambda>a. None)(0 \<mapsto> ''a'', 1 \<mapsto> ''x'', 2 \<mapsto> ''b'', 3 \<mapsto> ''y'',
                                      4 \<mapsto> ''c'', 5 \<mapsto> ''z''),
                     brk = 6, grants = gs\<rparr>"

subsection \<open>Abstraction and invariant\<close>

text \<open>The entries of a store, as strings: slot by slot, the content of the key block and of
  the value block.\<close>

definition entries :: "KeyValueStore \<Rightarrow> heap \<Rightarrow> (string \<times> string) list" where
  "entries s h = map (\<lambda>p. (the (live h (key p)), the (live h (value p)))) (pairs s)"

text \<open>The addresses the store owns.\<close>

definition owned :: "KeyValueStore \<Rightarrow> addr list" where
  "owned s = map key (pairs s) @ map value (pairs s)"

text \<open>Every allocated block lies below the next fresh address.\<close>

definition heap_ok :: "heap \<Rightarrow> bool" where
  "heap_ok h = (\<forall>a. live h a \<noteq> None \<longrightarrow> a < brk h)"

text \<open>The largest room of a block that the allocator grants.\<close>

definition MAX_ROOM :: nat where
  "MAX_ROOM = slots PTRDIFF_MAX"

text \<open>A well-formed store: unlocked, its entries within its capacity and within the room of
  its block, which is no larger than the allocator grants, owning pairwise different
  allocated blocks, with pairwise different keys.\<close>

definition wf :: "KeyValueStore \<Rightarrow> heap \<Rightarrow> bool" where
  "wf s h = (\<not> mutex s \<and> 0 < capacity s \<and> item_count s \<le> capacity s
     \<and> item_count s \<le> room s \<and> room s \<le> MAX_ROOM \<and> heap_ok h
     \<and> distinct (owned s) \<and> (\<forall>a\<in>set (owned s). live h a \<noteq> None)
     \<and> distinct (map fst (entries s h)))"

text \<open>A valid store: well-formed, and its block has room for its capacity.\<close>

definition valid :: "KeyValueStore \<Rightarrow> heap \<Rightarrow> bool" where
  "valid s h = (wf s h \<and> capacity s \<le> room s)"

text \<open>The store after a successful update of slot \<open>j\<close> whose new value block is \<open>n\<close>.\<close>

definition updated :: "KeyValueStore \<Rightarrow> nat \<Rightarrow> addr \<Rightarrow> KeyValueStore" where
  "updated s j n =
     s\<lparr>pairs := (pairs s)[j := (pairs s ! j)\<lparr>value := n\<rparr>], add_count := add_count s + 1\<rparr>"

text \<open>One call on a store: an upsert or a lookup with any arguments that returns. Between two
  calls the allocator may change its mind about the coming requests.\<close>

inductive step :: "KeyValueStore \<times> heap \<Rightarrow> KeyValueStore \<times> heap \<Rightarrow> bool" where
  step_upsert:
    "store_add_or_update_item (Some (Some s)) k v h = Inr (ok, Some (Some s'), h')
       \<Longrightarrow> step (s, h) (s', h')"
| step_lookup:
    "store_get_value (Some s) k h = Inr (r, Some s') \<Longrightarrow> step (s, h) (s', h)"
| step_allocator:
    "step (s, h) (s, h\<lparr>grants := gs\<rparr>)"

text \<open>The stores that calls can produce from a freshly created one.\<close>

inductive reachable :: "KeyValueStore \<Rightarrow> heap \<Rightarrow> bool" where
  reachable_create:
    "heap_ok h0 \<Longrightarrow> store_create n mtx_ok h0 = Inr (Some s, h) \<Longrightarrow> reachable s h"
| reachable_step:
    "reachable s h \<Longrightarrow> step (s, h) (s', h') \<Longrightarrow> reachable s' h'"

section \<open>Auxiliary facts\<close>

subsection \<open>Allocator, scan, association lists\<close>

lemma find_pair_Some:
  "find_pair h r ps k i = Inr (Some j) \<Longrightarrow>
     i \<le> j \<and> j - i < length ps \<and> j < r \<and> live h (key (ps ! (j - i))) = Some k \<and>
     (\<forall>m < j - i. live h (key (ps ! m)) \<noteq> None \<and> live h (key (ps ! m)) \<noteq> Some k)"
proof (induction ps arbitrary: i)
  case Nil then show ?case by simp
next
  case (Cons p ps)
  have ir: "i < r" using Cons.prems by (auto split: if_splits)
  show ?case
  proof (cases "live h (key p) = Some k")
    case True
    with Cons.prems ir show ?thesis by (auto split: if_splits)
  next
    case False
    with Cons.prems obtain b where b: "live h (key p) = Some b" "b \<noteq> k"
      and r: "find_pair h r ps k (Suc i) = Inr (Some j)"
      by (auto split: option.splits if_splits)
    from Cons.IH[OF r] have ih: "Suc i \<le> j" "j - Suc i < length ps" "j < r"
      "live h (key (ps ! (j - Suc i))) = Some k"
      "\<forall>m < j - Suc i. live h (key (ps ! m)) \<noteq> None \<and> live h (key (ps ! m)) \<noteq> Some k" by auto
    have e: "j - i = Suc (j - Suc i)" using ih(1) by simp
    show ?thesis using ih b unfolding e
      by (auto simp: nth_Cons split: nat.splits)
  qed
qed

lemma find_pair_None:
  "find_pair h r ps k i = Inr None \<Longrightarrow>
     (\<forall>p\<in>set ps. live h (key p) \<noteq> None \<and> live h (key p) \<noteq> Some k)"
  by (induction ps arbitrary: i) (auto split: option.splits if_splits)

lemma find_pair_total:
  "\<forall>p\<in>set ps. live h (key p) \<noteq> None \<Longrightarrow> i + length ps \<le> r
     \<Longrightarrow> \<exists>res. find_pair h r ps k i = Inr res"
  by (induction ps arbitrary: i) (auto split: option.splits if_splits)

lemma update_at_first:
  "j < length al \<Longrightarrow> fst (al ! j) = k \<Longrightarrow> \<forall>m<j. fst (al ! m) \<noteq> k \<Longrightarrow>
     AList.update k v al = al[j := (k, v)]"
proof (induction al arbitrary: j)
  case Nil then show ?case by simp
next
  case (Cons a al)
  show ?case
  proof (cases j)
    case 0 with Cons.prems show ?thesis by (cases a) auto
  next
    case (Suc j')
    with Cons.prems have "fst a \<noteq> k" by auto
    moreover have "AList.update k v al = al[j' := (k, v)]"
      using Cons.prems Suc by (intro Cons.IH) auto
    ultimately show ?thesis using Suc by (cases a) auto
  qed
qed

lemma update_absent:
  "k \<notin> fst ` set al \<Longrightarrow> AList.update k v al = al @ [(k, v)]"
  by (induction al) auto


lemma map_update_cong:
  "(\<And>i. i < length xs \<Longrightarrow> i \<noteq> j \<Longrightarrow> f (xs ! i) = g (xs ! i)) \<Longrightarrow>
     (map f xs)[j := y] = (map g xs)[j := y]"
proof (rule nth_equalityI)
  show "length ((map f xs)[j := y]) = length ((map g xs)[j := y])" by simp
next
  fix i assume "i < length ((map f xs)[j := y])"
  then have i: "i < length xs" by simp
  assume h: "\<And>i. i < length xs \<Longrightarrow> i \<noteq> j \<Longrightarrow> f (xs ! i) = g (xs ! i)"
  show "(map f xs)[j := y] ! i = (map g xs)[j := y] ! i"
    using i h[of i] by (cases "i = j") simp_all
qed

lemma owned_lt_brk: "wf s h \<Longrightarrow> a \<in> set (owned s) \<Longrightarrow> a < brk h"
  by (auto simp: wf_def heap_ok_def)

lemma owned_nth:
  assumes "wf s h" "i < length (pairs s)"
  shows "key (pairs s ! i) \<in> set (owned s)" "value (pairs s ! i) \<in> set (owned s)"
  using assms by (auto simp: owned_def)

lemma owned_sep:
  assumes "distinct (owned s)" "i < length (pairs s)" "j < length (pairs s)"
  shows "key (pairs s ! i) \<noteq> value (pairs s ! j)"
    and "i \<noteq> j \<Longrightarrow> key (pairs s ! i) \<noteq> key (pairs s ! j)"
    and "i \<noteq> j \<Longrightarrow> value (pairs s ! i) \<noteq> value (pairs s ! j)"
proof -
  have dk: "distinct (map key (pairs s))" and dv: "distinct (map value (pairs s))"
    and dj: "set (map key (pairs s)) \<inter> set (map value (pairs s)) = {}"
    using assms(1) by (simp_all add: owned_def)
  have ki: "map key (pairs s) ! i = key (pairs s ! i)" "map key (pairs s) ! j = key (pairs s ! j)"
    and vi: "map value (pairs s) ! i = value (pairs s ! i)" "map value (pairs s) ! j = value (pairs s ! j)"
    using assms(2,3) by simp_all
  have "map key (pairs s) ! i \<in> set (map key (pairs s))"
    using assms(2) by (intro nth_mem) simp
  moreover have "map value (pairs s) ! j \<in> set (map value (pairs s))"
    using assms(3) by (intro nth_mem) simp
  ultimately have "map key (pairs s) ! i \<noteq> map value (pairs s) ! j"
    using dj by (metis IntI empty_iff)
  then show "key (pairs s ! i) \<noteq> value (pairs s ! j)" unfolding ki vi .
  have "i \<noteq> j \<Longrightarrow> map key (pairs s) ! i \<noteq> map key (pairs s) ! j"
    using dk assms(2,3) by (simp only: nth_eq_iff_index_eq length_map not_False_eq_True)
  then show "i \<noteq> j \<Longrightarrow> key (pairs s ! i) \<noteq> key (pairs s ! j)" unfolding ki .
  have "i \<noteq> j \<Longrightarrow> map value (pairs s) ! i \<noteq> map value (pairs s) ! j"
    using dv assms(2,3) by (simp only: nth_eq_iff_index_eq length_map not_False_eq_True)
  then show "i \<noteq> j \<Longrightarrow> value (pairs s ! i) \<noteq> value (pairs s ! j)" unfolding vi .
qed


subsection \<open>The update path\<close>

lemma update_item_result:
  assumes "wf s h" "j < length (pairs s)"
  shows "update_item (s\<lparr>mutex := True\<rparr>) j v h =
     (case grants h of
        True # rest \<Rightarrow>
          Inr (True, updated s j (brk h),
               h\<lparr>live := (live h)(brk h \<mapsto> v, value (pairs s ! j) := None),
                 brk := Suc (brk h), grants := rest\<rparr>)
      | False # rest \<Rightarrow> Inr (False, s, h\<lparr>grants := rest\<rparr>)
      | [] \<Rightarrow> Inr (False, s, h))"
proof -
  have m: "\<not> mutex s" using assms(1) by (simp add: wf_def)
  have "value (pairs s ! j) \<in> set (owned s)" using assms by (rule owned_nth)
  then have lv: "live h (value (pairs s ! j)) \<noteq> None" and ne: "value (pairs s ! j) \<noteq> brk h"
    using assms(1) owned_lt_brk[OF assms(1), of "value (pairs s ! j)"] by (auto simp: wf_def)
  show ?thesis
    using m lv ne
    by (auto simp: update_item_def duplicate_string_def grant_def free_def mtx_unlock_def updated_def
             split: list.splits bool.splits option.splits)
qed


lemma length_entries: "length (entries s h) = length (pairs s)"
  by (simp add: entries_def)

lemma wf_updated:
  assumes w: "wf s h" and j: "j < length (pairs s)"
    and h': "live h' = (live h)(brk h \<mapsto> v, value (pairs s ! j) := None)" "brk h' = Suc (brk h)"
  shows "wf (updated s j (brk h)) h'"
    and "entries (updated s j (brk h)) h' = (entries s h)[j := (fst (entries s h ! j), v)]"
proof -
  let ?ps = "pairs s" and ?n = "brk h" and ?old = "value (pairs s ! j)"
  let ?s' = "updated s j (brk h)"
  have d: "distinct (owned s)" and lv: "\<And>a. a \<in> set (owned s) \<Longrightarrow> live h a \<noteq> None"
    and hk: "heap_ok h" and dk: "distinct (map fst (entries s h))"
    using w by (auto simp: wf_def)
  have lt: "\<And>a. a \<in> set (owned s) \<Longrightarrow> a < ?n" using w by (rule owned_lt_brk)
  have ps': "pairs ?s' = ?ps[j := (?ps ! j)\<lparr>value := ?n\<rparr>]" by (simp add: updated_def)
  have K: "live h' (key (?ps ! i)) = live h (key (?ps ! i))" if "i < length ?ps" for i
  proof -
    have "key (?ps ! i) \<noteq> ?old" using d that j by (rule owned_sep(1))
    moreover have "key (?ps ! i) \<noteq> ?n" using lt[OF owned_nth(1)[OF w that]] by simp
    ultimately show ?thesis by (simp add: h')
  qed
  have V: "live h' (value (?ps ! i)) = live h (value (?ps ! i))" if "i < length ?ps" "i \<noteq> j" for i
  proof -
    have "value (?ps ! i) \<noteq> ?old" using d that(1) j that(2) by (rule owned_sep(3))
    moreover have "value (?ps ! i) \<noteq> ?n" using lt[OF owned_nth(2)[OF w that(1)]] by simp
    ultimately show ?thesis by (simp add: h')
  qed
  have oldn: "?old \<noteq> ?n" using lt[OF owned_nth(2)[OF w j]] by simp
  have N: "live h' ?n = Some v" using oldn by (simp add: h')
  have kj: "key ((?ps ! j)\<lparr>value := ?n\<rparr>) = key (?ps ! j)" by simp
  show E: "entries ?s' h' = (entries s h)[j := (fst (entries s h ! j), v)]"
  proof -
    let ?f' = "\<lambda>p. (the (live h' (key p)), the (live h' (value p)))"
    let ?f = "\<lambda>p. (the (live h (key p)), the (live h (value p)))"
    have "entries ?s' h' = (map ?f' ?ps)[j := ?f' ((?ps ! j)\<lparr>value := ?n\<rparr>)]"
      by (simp add: entries_def ps' map_update)
    also have "?f' ((?ps ! j)\<lparr>value := ?n\<rparr>) = (fst (entries s h ! j), v)"
      using K[OF j] N j by (simp add: entries_def)
    also have "(map ?f' ?ps)[j := (fst (entries s h ! j), v)] = (map ?f ?ps)[j := (fst (entries s h ! j), v)]"
      by (rule map_update_cong) (simp add: K V)
    finally show ?thesis by (simp add: entries_def)
  qed
  have F: "map fst (entries ?s' h') = map fst (entries s h)"
  proof -
    have "(map fst (entries s h))[j := map fst (entries s h) ! j] = map fst (entries s h)"
      by (rule list_update_id)
    then show ?thesis unfolding E using j by (simp add: map_update length_entries)
  qed
  have ok': "heap_ok h'" using hk by (auto simp: heap_ok_def h' split: if_splits intro: less_SucI)
  have nv: "?n \<notin> set (map value ?ps)" and nk: "?n \<notin> set (map key ?ps)"
    using lt by (auto simp: owned_def)
  have own': "owned ?s' = map key ?ps @ (map value ?ps)[j := ?n]"
  proof -
    have "map key (?ps[j := (?ps ! j)\<lparr>value := ?n\<rparr>]) = (map key ?ps)[j := map key ?ps ! j]"
      using j by (simp add: map_update)
    then have "map key (?ps[j := (?ps ! j)\<lparr>value := ?n\<rparr>]) = map key ?ps"
      by (simp only: list_update_id)
    moreover have "map value (?ps[j := (?ps ! j)\<lparr>value := ?n\<rparr>]) = (map value ?ps)[j := ?n]"
      by (simp add: map_update)
    ultimately show ?thesis by (simp only: owned_def ps')
  qed
  have dko: "distinct (map key ?ps)" and dvo: "distinct (map value ?ps)"
    and djo: "set (map key ?ps) \<inter> set (map value ?ps) = {}"
    using d by (simp_all add: owned_def)
  have d1: "distinct ((map value ?ps)[j := ?n])"
    using dvo nv by (intro distinct_list_update) auto
  have sub: "set ((map value ?ps)[j := ?n]) \<subseteq> insert ?n (set (map value ?ps))"
    by (rule set_update_subset_insert)
  have d2: "set (map key ?ps) \<inter> set ((map value ?ps)[j := ?n]) = {}"
    using sub djo nk by blast
  have dist': "distinct (owned ?s')" unfolding own' using dko d1 d2 by simp
  have live': "live h' a \<noteq> None" if "a \<in> set (owned ?s')" for a
  proof -
    from that consider (k) "a \<in> set (map key ?ps)" | (v) "a \<in> set ((map value ?ps)[j := ?n])"
      unfolding own' by auto
    then show ?thesis
    proof cases
      case k
      then obtain i where i: "i < length ?ps" "a = key (?ps ! i)"
        by (auto simp: in_set_conv_nth)
      then show ?thesis using K[OF i(1)] lv[OF owned_nth(1)[OF w i(1)]] by simp
    next
      case v
      then obtain i where i: "i < length ?ps" "a = (map value ?ps)[j := ?n] ! i"
        by (auto simp: in_set_conv_nth)
      show ?thesis
      proof (cases "i = j")
        case True then show ?thesis using i N by simp
      next
        case False
        then have "a = value (?ps ! i)" using i by simp
        then show ?thesis using V[OF i(1) False] lv[OF owned_nth(2)[OF w i(1)]] by simp
      qed
    qed
  qed
  show "wf ?s' h'"
    unfolding wf_def using w ok' dist' live' F dk
    by (simp add: wf_def updated_def item_count_def)
qed


subsection \<open>Sizes and the growth step\<close>

lemma MAX_ROOM_eq: "MAX_ROOM = 576460752303423483"
  by (simp add: MAX_ROOM_def slots_def PTRDIFF_MAX_def sizeof_KeyValueStore_def
        sizeof_KeyValuePair_def)

lemma store_bytes_small:
  assumes "n \<le> 2 * MAX_ROOM"
  shows "store_bytes n = 64 + 16 * n"
proof -
  have "64 + 16 * n < (2 :: nat) ^ 64" using assms unfolding MAX_ROOM_eq by simp
  then show ?thesis
    by (simp add: store_bytes_def sizeof_KeyValueStore_def sizeof_KeyValuePair_def
          SIZE_MODULUS_def mult.commute)
qed

lemma slots_store_bytes:
  assumes "n \<le> 2 * MAX_ROOM"
  shows "slots (store_bytes n) = n"
  unfolding store_bytes_small[OF assms]
  by (simp add: slots_def sizeof_KeyValueStore_def sizeof_KeyValuePair_def)

lemma granted_room:
  assumes "n \<le> 2 * MAX_ROOM" "store_bytes n \<le> PTRDIFF_MAX"
  shows "n \<le> MAX_ROOM"
  using assms(2) unfolding store_bytes_small[OF assms(1)] MAX_ROOM_eq PTRDIFF_MAX_def by simp

lemma slots_le_MAX_ROOM: "bytes \<le> PTRDIFF_MAX \<Longrightarrow> slots bytes \<le> MAX_ROOM"
  unfolding MAX_ROOM_def slots_def by (intro div_le_mono diff_le_mono)

lemma double_small:
  assumes "c \<le> MAX_ROOM"
  shows "(c * 2) mod SIZE_MODULUS = 2 * c"
  using assms unfolding MAX_ROOM_eq SIZE_MODULUS_def by simp

lemma grow_result:
  assumes "item_count s \<le> capacity s" "item_count s \<le> room s" "room s \<le> MAX_ROOM"
  shows "grow s h =
     (if item_count s = capacity s then
        (if store_bytes (2 * capacity s) \<le> PTRDIFF_MAX \<and> (\<exists>gs. grants h = True # gs)
         then Inr (Some (s\<lparr>capacity := 2 * capacity s, room := 2 * capacity s\<rparr>),
                   h\<lparr>grants := tl (grants h)\<rparr>)
         else Inr (None, if store_bytes (2 * capacity s) \<le> PTRDIFF_MAX
                         then h\<lparr>grants := tl (grants h)\<rparr> else h))
      else Inr (Some s, h))"
proof (cases "item_count s = capacity s")
  case False
  then show ?thesis using assms(1) by (simp add: grow_def)
next
  case True
  then have c: "capacity s \<le> MAX_ROOM" using assms(2,3) by simp
  then have c2: "2 * capacity s \<le> 2 * MAX_ROOM" by simp
  have d: "(capacity s * 2) mod SIZE_MODULUS = 2 * capacity s" using c by (rule double_small)
  have b: "\<not> store_bytes (2 * capacity s) < sizeof_KeyValueStore"
    unfolding store_bytes_small[OF c2] by (simp add: sizeof_KeyValueStore_def)
  have sl: "slots (store_bytes (2 * capacity s)) = 2 * capacity s"
    using c2 by (rule slots_store_bytes)
  have e: "h\<lparr>grants := []\<rparr> = h" if "grants h = []" using that by simp
  show ?thesis
    using True b sl e
    by (auto simp: grow_def Let_def d grant_bytes_def grant_def split: list.splits bool.splits)
qed

subsection \<open>The insert path\<close>

lemma grow_locked:
  assumes "wf s h"
  shows "grow (s\<lparr>mutex := True\<rparr>) h =
     (if item_count s = capacity s then
        (if store_bytes (2 * capacity s) \<le> PTRDIFF_MAX \<and> (\<exists>gs. grants h = True # gs)
         then Inr (Some (s\<lparr>mutex := True, capacity := 2 * capacity s, room := 2 * capacity s\<rparr>),
                   h\<lparr>grants := tl (grants h)\<rparr>)
         else Inr (None, if store_bytes (2 * capacity s) \<le> PTRDIFF_MAX
                         then h\<lparr>grants := tl (grants h)\<rparr> else h))
      else Inr (Some (s\<lparr>mutex := True\<rparr>), h))"
proof -
  have "item_count (s\<lparr>mutex := True\<rparr>) \<le> capacity (s\<lparr>mutex := True\<rparr>)"
    "item_count (s\<lparr>mutex := True\<rparr>) \<le> room (s\<lparr>mutex := True\<rparr>)"
    "room (s\<lparr>mutex := True\<rparr>) \<le> MAX_ROOM"
    using assms by (simp_all add: wf_def item_count_def)
  from grow_result[OF this, of h] show ?thesis by (auto simp: item_count_def)
qed

lemma grown_room:
  assumes "wf s h" "item_count s = capacity s" "store_bytes (2 * capacity s) \<le> PTRDIFF_MAX"
  shows "2 * capacity s \<le> MAX_ROOM"
proof -
  have "capacity s \<le> MAX_ROOM" using assms(1,2) by (simp add: wf_def)
  then have "2 * capacity s \<le> 2 * MAX_ROOM" by simp
  then show ?thesis using assms(3) by (rule granted_room)
qed

lemma insert_item_total:
  assumes "wf s h" "capacity s \<le> room s"
  shows "\<exists>b s' h'. insert_item (s\<lparr>mutex := True\<rparr>) k v h = Inr (b, s', h')"
proof -
  have hk: "live h (brk h) = None" and le: "item_count s \<le> capacity s" and c: "0 < capacity s"
    using assms(1) by (auto simp: wf_def heap_ok_def)
  show ?thesis
    using hk le c assms(2)
    by (auto simp: insert_item_def grow_locked[OF assms(1)] duplicate_string_def grant_def free_def
                   item_count_def
             split: list.splits bool.splits option.splits prod.splits if_splits)
qed

lemma insert_item_fail:
  assumes "wf s h" "insert_item (s\<lparr>mutex := True\<rparr>) k v h = Inr (False, s', h')"
  shows "pairs s' = pairs s \<and> add_count s' = add_count s \<and> mutex s' = mutex s \<and> live h' = live h
         \<and> brk h \<le> brk h' \<and> brk h' \<le> Suc (brk h)
         \<and> (capacity s' = capacity s \<or> capacity s' = 2 * capacity s \<and> item_count s = capacity s)
         \<and> (room s' = room s \<and> capacity s' = capacity s
            \<or> room s' = 2 * capacity s \<and> capacity s' = 2 * capacity s
                \<and> item_count s = capacity s \<and> 2 * capacity s \<le> MAX_ROOM)"
proof -
  have hk: "live h (brk h) = None" and m: "\<not> mutex s" and le: "item_count s \<le> capacity s"
    using assms(1) by (auto simp: wf_def heap_ok_def)
  note g = grown_room[OF assms(1)]
  show ?thesis
    using assms(2) hk m le g
    by (auto simp: insert_item_def grow_locked[OF assms(1)] duplicate_string_def grant_def free_def
                   mtx_unlock_def item_count_def
             split: list.splits bool.splits option.splits prod.splits if_splits)
qed

lemma insert_item_ok:
  assumes "wf s h" "insert_item (s\<lparr>mutex := True\<rparr>) k v h = Inr (True, s', h')"
  shows "pairs s' = pairs s @ [\<lparr>key = brk h, value = Suc (brk h)\<rparr>] \<and> add_count s' = add_count s + 1
         \<and> mutex s' = mutex s \<and> live h' = (live h)(brk h \<mapsto> k, Suc (brk h) \<mapsto> v)
         \<and> brk h' = Suc (Suc (brk h)) \<and> item_count s < capacity s'
         \<and> (capacity s' = capacity s \<or> capacity s' = 2 * capacity s \<and> item_count s = capacity s)
         \<and> item_count s < room s'
         \<and> (room s' = room s \<and> capacity s' = capacity s
            \<or> room s' = 2 * capacity s \<and> capacity s' = 2 * capacity s
                \<and> item_count s = capacity s \<and> 2 * capacity s \<le> MAX_ROOM)"
proof -
  have m: "\<not> mutex s" and le: "item_count s \<le> capacity s" and c: "0 < capacity s"
    using assms(1) by (auto simp: wf_def heap_ok_def)
  note g = grown_room[OF assms(1)]
  show ?thesis
    using assms(2) m le c g
    by (auto simp: insert_item_def grow_locked[OF assms(1)] duplicate_string_def grant_def free_def
                   mtx_unlock_def item_count_def
             split: list.splits bool.splits option.splits prod.splits if_splits)
qed

lemma wf_insert_fail:
  assumes w: "wf s h" and e: "pairs s' = pairs s" "mutex s' = mutex s" "live h' = live h"
    "brk h \<le> brk h'" "capacity s' = capacity s \<or> capacity s' = 2 * capacity s \<and> item_count s = capacity s"
    "(room s' = room s \<and> capacity s' = capacity s
            \<or> room s' = 2 * capacity s \<and> capacity s' = 2 * capacity s
                \<and> item_count s = capacity s \<and> 2 * capacity s \<le> MAX_ROOM)"
  shows "wf s' h'" and "entries s' h' = entries s h"
proof -
  show E: "entries s' h' = entries s h" using e by (simp add: entries_def)
  have "heap_ok h'" using w e(3,4) by (auto simp: wf_def heap_ok_def)
  moreover have "owned s' = owned s" using e(1) by (simp add: owned_def)
  moreover have "item_count s' = item_count s" using e(1) by (simp add: item_count_def)
  moreover have "item_count s' \<le> capacity s'" "0 < capacity s'"
    using w e(1,5) by (auto simp: wf_def item_count_def)
  moreover have "item_count s' \<le> room s'" "room s' \<le> MAX_ROOM"
    using w e(1,6) by (auto simp: wf_def item_count_def)
  ultimately show "wf s' h'"
    using w e(2,3) E unfolding wf_def by simp
qed

lemma wf_insert_ok:
  assumes w: "wf s h" and absent: "k \<notin> fst ` set (entries s h)"
    and e: "pairs s' = pairs s @ [\<lparr>key = brk h, value = Suc (brk h)\<rparr>]" "mutex s' = mutex s"
      "live h' = (live h)(brk h \<mapsto> k, Suc (brk h) \<mapsto> v)" "brk h' = Suc (Suc (brk h))"
      "item_count s < capacity s'" "item_count s < room s'" "room s' \<le> MAX_ROOM"
  shows "wf s' h'" and "entries s' h' = entries s h @ [(k, v)]"
proof -
  have lt: "\<And>a. a \<in> set (owned s) \<Longrightarrow> a < brk h" using w by (rule owned_lt_brk)
  have same: "live h' a = live h a" if "a \<in> set (owned s)" for a
    using lt[OF that] by (simp add: e(3))
  have "map (\<lambda>p. (the (live h' (key p)), the (live h' (value p)))) (pairs s)
        = map (\<lambda>p. (the (live h (key p)), the (live h (value p)))) (pairs s)"
    by (rule map_cong[OF refl]) (simp add: same owned_def)
  then show E: "entries s' h' = entries s h @ [(k, v)]"
    by (simp add: entries_def e(1,3))
  have ok': "heap_ok h'" using w by (auto simp: wf_def heap_ok_def e(3,4) split: if_splits intro: less_SucI)
  have own': "set (owned s') = set (owned s) \<union> {brk h, Suc (brk h)}"
    by (auto simp: owned_def e(1))
  have d: "distinct (map key (pairs s))" "distinct (map value (pairs s))"
    "set (map key (pairs s)) \<inter> set (map value (pairs s)) = {}"
    using w by (simp_all add: wf_def owned_def)
  have nk: "brk h \<notin> key ` set (pairs s)" "Suc (brk h) \<notin> key ` set (pairs s)"
    and nv: "brk h \<notin> value ` set (pairs s)" "Suc (brk h) \<notin> value ` set (pairs s)"
  proof -
    have b: "\<And>a. a \<in> key ` set (pairs s) \<union> value ` set (pairs s) \<Longrightarrow> a < brk h"
      using lt by (simp add: owned_def)
    show "brk h \<notin> key ` set (pairs s)" "Suc (brk h) \<notin> key ` set (pairs s)"
      "brk h \<notin> value ` set (pairs s)" "Suc (brk h) \<notin> value ` set (pairs s)"
      using b[of "brk h"] b[of "Suc (brk h)"] by auto
  qed
  have dist': "distinct (owned s')"
    using d nk nv by (simp add: owned_def e(1))
  have live': "\<forall>a\<in>set (owned s'). live h' a \<noteq> None"
    unfolding own' using w same by (auto simp: wf_def e(3))
  have "distinct (map fst (entries s' h'))"
    unfolding E using w absent by (simp add: wf_def)
  then show "wf s' h'"
    using w ok' dist' live' e(2,5,6,7) unfolding wf_def by (simp add: item_count_def e(1))
qed

lemma find_pair_wf:
  assumes "wf s h"
  shows "(\<exists>j. find_pair h (room s) (pairs s) k 0 = Inr (Some j) \<and> j < length (pairs s)
               \<and> fst (entries s h ! j) = k \<and> (\<forall>m<j. fst (entries s h ! m) \<noteq> k))
       \<or> (find_pair h (room s) (pairs s) k 0 = Inr None \<and> k \<notin> fst ` set (entries s h))"
proof -
  have lv: "\<forall>p\<in>set (pairs s). live h (key p) \<noteq> None"
    using assms by (auto simp: wf_def owned_def)
  have fit: "0 + length (pairs s) \<le> room s" using assms by (simp add: wf_def item_count_def)
  from find_pair_total[OF lv fit] obtain r where r: "find_pair h (room s) (pairs s) k 0 = Inr r"
    by blast
  show ?thesis
  proof (cases r)
    case None
    with r find_pair_None[of h "room s" "pairs s" k 0] have "\<forall>p\<in>set (pairs s). live h (key p) \<noteq> Some k"
      by simp
    then have "k \<notin> fst ` set (entries s h)" using lv by (fastforce simp: entries_def)
    with r None show ?thesis by simp
  next
    case (Some j)
    from find_pair_Some[of h "room s" "pairs s" k 0 j] r Some
    have j: "j < length (pairs s)" "live h (key (pairs s ! j)) = Some k"
      "\<forall>m<j. live h (key (pairs s ! m)) \<noteq> None \<and> live h (key (pairs s ! m)) \<noteq> Some k" by auto
    have "fst (entries s h ! j) = k" using j(1,2) by (simp add: entries_def)
    moreover have "\<forall>m<j. fst (entries s h ! m) \<noteq> k"
      using j(1,3) by (fastforce simp: entries_def)
    ultimately show ?thesis using r Some j(1) by simp
  qed
qed


lemma upsert_unfold:
  assumes "\<not> mutex s"
  shows "store_add_or_update_item (Some (Some s)) (Some k) (Some v) h =
     (case find_pair h (room s) (pairs s) k 0 of
        Inl e \<Rightarrow> Inl e
      | Inr found \<Rightarrow>
          (case (case found of Some i \<Rightarrow> update_item (s\<lparr>mutex := True\<rparr>) i v h
                             | None \<Rightarrow> insert_item (s\<lparr>mutex := True\<rparr>) k v h) of
             Inl e \<Rightarrow> Inl e
           | Inr (ok, s', h') \<Rightarrow> Inr (ok, Some (Some s'), h')))"
  using assms by (simp add: store_add_or_update_item_def mtx_lock_def)

lemma upsert_cases [consumes 2, case_names update_ok update_fail insert_ok insert_fail]:
  assumes w: "wf s h"
    and r: "store_add_or_update_item (Some (Some s)) (Some k) (Some v) h = Inr (b, sp', h')"
  obtains
    (update_ok) j where "b" "sp' = Some (Some (updated s j (brk h)))" "j < length (pairs s)"
      "fst (entries s h ! j) = k" "\<forall>m<j. fst (entries s h ! m) \<noteq> k"
      "live h' = (live h)(brk h \<mapsto> v, value (pairs s ! j) := None)" "brk h' = Suc (brk h)"
  | (update_fail) "\<not> b" "sp' = Some (Some s)" "k \<in> fst ` set (entries s h)"
      "live h' = live h" "brk h' = brk h"
  | (insert_ok) s' where "b" "sp' = Some (Some s')" "k \<notin> fst ` set (entries s h)"
      "pairs s' = pairs s @ [\<lparr>key = brk h, value = Suc (brk h)\<rparr>]" "add_count s' = add_count s + 1"
      "mutex s' = mutex s" "live h' = (live h)(brk h \<mapsto> k, Suc (brk h) \<mapsto> v)"
      "brk h' = Suc (Suc (brk h))" "item_count s < capacity s'"
      "capacity s' = capacity s \<or> capacity s' = 2 * capacity s \<and> item_count s = capacity s"
      "item_count s < room s'"
      "room s' = room s \<and> capacity s' = capacity s
            \<or> room s' = 2 * capacity s \<and> capacity s' = 2 * capacity s
                \<and> item_count s = capacity s \<and> 2 * capacity s \<le> MAX_ROOM"
  | (insert_fail) s' where "\<not> b" "sp' = Some (Some s')" "k \<notin> fst ` set (entries s h)"
      "pairs s' = pairs s" "add_count s' = add_count s" "mutex s' = mutex s" "live h' = live h"
      "brk h \<le> brk h'"
      "capacity s' = capacity s \<or> capacity s' = 2 * capacity s \<and> item_count s = capacity s"
      "room s' = room s \<and> capacity s' = capacity s
            \<or> room s' = 2 * capacity s \<and> capacity s' = 2 * capacity s
                \<and> item_count s = capacity s \<and> 2 * capacity s \<le> MAX_ROOM"
proof -
  have m: "\<not> mutex s" using w by (simp add: wf_def)
  note u = r[unfolded upsert_unfold[OF m]]
  from find_pair_wf[OF w, of k] show thesis
  proof (elim disjE exE conjE)
    fix j
    assume f: "find_pair h (room s) (pairs s) k 0 = Inr (Some j)" and j: "j < length (pairs s)"
      and kj: "fst (entries s h ! j) = k" and first: "\<forall>m<j. fst (entries s h ! m) \<noteq> k"
    have mem: "k \<in> fst ` set (entries s h)"
      using j kj by (metis length_entries nth_mem image_eqI)
    from u f have "update_item (s\<lparr>mutex := True\<rparr>) j v h = Inr (b, the (the sp'), h') \<and> sp' = Some (Some (the (the sp')))"
      by (auto split: sum.splits)
    then have res: "update_item (s\<lparr>mutex := True\<rparr>) j v h = Inr (b, the (the sp'), h')"
      and sp: "sp' = Some (Some (the (the sp')))" by simp_all
    show thesis
    proof (cases b)
      case True
      with res sp have "sp' = Some (Some (updated s j (brk h)))"
        "live h' = (live h)(brk h \<mapsto> v, value (pairs s ! j) := None)" "brk h' = Suc (brk h)"
        unfolding update_item_result[OF w j] by (auto split: list.splits bool.splits)
      with True j kj first show thesis by (intro update_ok)
    next
      case False
      with res sp have "sp' = Some (Some s)" "live h' = live h" "brk h' = brk h"
        unfolding update_item_result[OF w j] by (auto split: list.splits bool.splits)
      with False mem show thesis by (intro update_fail)
    qed
  next
    assume f: "find_pair h (room s) (pairs s) k 0 = Inr None" and absent: "k \<notin> fst ` set (entries s h)"
    from u f have "insert_item (s\<lparr>mutex := True\<rparr>) k v h = Inr (b, the (the sp'), h') \<and> sp' = Some (Some (the (the sp')))"
      by (auto split: sum.splits)
    then have res: "insert_item (s\<lparr>mutex := True\<rparr>) k v h = Inr (b, the (the sp'), h')"
      and sp: "sp' = Some (Some (the (the sp')))" by simp_all
    show thesis
    proof (cases b)
      case True
      with res have res': "insert_item (s\<lparr>mutex := True\<rparr>) k v h = Inr (True, the (the sp'), h')"
        by simp
      from insert_item_ok[OF w res'] True sp absent show thesis
        by (intro insert_ok[of "the (the sp')"]) simp_all
    next
      case False
      with res have res': "insert_item (s\<lparr>mutex := True\<rparr>) k v h = Inr (False, the (the sp'), h')"
        by simp
      from insert_item_fail[OF w res'] False sp absent show thesis
        by (intro insert_fail[of "the (the sp')"]) simp_all
    qed
  qed
qed

lemma upsert_total:
  assumes w: "wf s h" and cr: "capacity s \<le> room s"
  shows "\<exists>b s' h'. store_add_or_update_item (Some (Some s)) (Some k) (Some v) h = Inr (b, Some (Some s'), h')"
proof -
  have m: "\<not> mutex s" using w by (simp add: wf_def)
  from find_pair_wf[OF w, of k] show ?thesis
  proof (elim disjE exE conjE)
    fix j
    assume f: "find_pair h (room s) (pairs s) k 0 = Inr (Some j)" and j: "j < length (pairs s)"
    show ?thesis
      unfolding upsert_unfold[OF m] f using update_item_result[OF w j, of v]
      by (auto split: list.splits bool.splits)
  next
    assume f: "find_pair h (room s) (pairs s) k 0 = Inr None"
    from insert_item_total[OF w cr, of k v] show ?thesis
      unfolding upsert_unfold[OF m] f by auto
  qed
qed


lemma upsert_step:
  assumes w: "wf s h"
    and r: "store_add_or_update_item (Some (Some s)) (Some k) (Some v) h = Inr (b, sp', h')"
  obtains s' where "sp' = Some (Some s')" "wf s' h'"
    "entries s' h' = (if b then AList.update k v (entries s h) else entries s h)"
    "add_count s' = (if b then add_count s + 1 else add_count s)"
    "capacity s' = capacity s \<or>
       capacity s' = 2 * capacity s \<and> item_count s = capacity s \<and> k \<notin> fst ` set (entries s h)"
    "\<not> b \<Longrightarrow> pairs s' = pairs s \<and> live h' = live h"
    "room s' = room s \<and> capacity s' = capacity s
            \<or> room s' = 2 * capacity s \<and> capacity s' = 2 * capacity s
                \<and> item_count s = capacity s"
  using w r
proof (cases rule: upsert_cases)
  case (update_ok j)
  have e: "entries (updated s j (brk h)) h' = (entries s h)[j := (k, v)]"
    using wf_updated(2)[OF w update_ok(3,6,7)] update_ok(4) by simp
  have "AList.update k v (entries s h) = (entries s h)[j := (k, v)]"
    using update_ok(3,4,5) by (intro update_at_first) (simp_all add: length_entries)
  with e have "entries (updated s j (brk h)) h' = (if b then AList.update k v (entries s h) else entries s h)"
    using update_ok(1) by simp
  moreover have "wf (updated s j (brk h)) h'" using w update_ok(3,6,7) by (rule wf_updated(1))
  ultimately show ?thesis
    using update_ok(1,2) by (intro that[of "updated s j (brk h)"]) (simp_all add: updated_def)
next
  case update_fail
  have "wf s h'" "entries s h' = entries s h"
    using wf_insert_fail[OF w, of s h'] update_fail(4,5) by simp_all
  then show ?thesis using update_fail by (intro that[of s]) simp_all
next
  case (insert_ok s')
  have rm: "room s' \<le> MAX_ROOM" using insert_ok(12) w by (auto simp: wf_def)
  have "wf s' h'" "entries s' h' = entries s h @ [(k, v)]"
    using wf_insert_ok[OF w insert_ok(3,4,6,7,8,9,11) rm] by simp_all
  moreover have "AList.update k v (entries s h) = entries s h @ [(k, v)]"
    using insert_ok(3) by (rule update_absent)
  ultimately show ?thesis
    using insert_ok by (intro that[of s']) auto
next
  case (insert_fail s')
  have "wf s' h'" "entries s' h' = entries s h"
    using wf_insert_fail[OF w insert_fail(4,6,7,8,9,10)] by simp_all
  then show ?thesis
    using insert_fail by (intro that[of s']) auto
qed

lemma upsert_null:
  "store_add_or_update_item None k v h = Inr (False, None, h)"
  "store_add_or_update_item (Some None) k v h = Inr (False, Some None, h)"
  "store_add_or_update_item sp None v h = Inr (False, sp, h)"
  "store_add_or_update_item sp k None h = Inr (False, sp, h)"
  by (auto simp: store_add_or_update_item_def split: option.splits)

text \<open>Any call on a well-formed store, null arguments included.\<close>

lemma upsert_any:
  assumes w: "wf s h"
    and r: "store_add_or_update_item (Some (Some s)) k v h = Inr (b, sp', h')"
  obtains s' where "sp' = Some (Some s')" "wf s' h'"
    "add_count s' = (if b then add_count s + 1 else add_count s)"
    "capacity s' = capacity s \<or> capacity s' = 2 * capacity s \<and> item_count s = capacity s"
    "b \<Longrightarrow> k \<noteq> None \<and> v \<noteq> None"
    "capacity s \<le> room s \<Longrightarrow> capacity s' \<le> room s'"
proof (cases "k = None \<or> v = None")
  case True
  then have "b = False \<and> sp' = Some (Some s) \<and> h' = h"
    using r upsert_null(3,4)[of "Some (Some s)"] by auto
  then show ?thesis using w by (intro that[of s]) simp_all
next
  case False
  then obtain kb vb where kv: "k = Some kb" "v = Some vb" by auto
  from w r[unfolded kv] show ?thesis
  proof (rule upsert_step)
    fix s' assume "sp' = Some (Some s')" "wf s' h'"
      "add_count s' = (if b then add_count s + 1 else add_count s)"
      "capacity s' = capacity s \<or>
       capacity s' = 2 * capacity s \<and> item_count s = capacity s \<and> kb \<notin> fst ` set (entries s h)"
      "room s' = room s \<and> capacity s' = capacity s
            \<or> room s' = 2 * capacity s \<and> capacity s' = 2 * capacity s
                \<and> item_count s = capacity s"
    then show ?thesis using kv by (intro that[of s']) auto
  qed
qed

lemma get_unfold:
  assumes "\<not> mutex s"
  shows "store_get_value (Some s) (Some k) h =
     (case find_pair h (room s) (pairs s) k 0 of
        Inl e \<Rightarrow> Inl e
      | Inr found \<Rightarrow> Inr (case found of None \<Rightarrow> None | Some i \<Rightarrow> Some (value (pairs s ! i)), Some s))"
  using assms by (auto simp: store_get_value_def mtx_lock_def mtx_unlock_def split: sum.splits option.splits)

lemma get_null:
  "store_get_value None k h = Inr (None, None)"
  "store_get_value store None h = Inr (None, store)"
  by (auto simp: store_get_value_def split: option.splits)

lemma get_wf:
  assumes w: "wf s h"
  shows "(\<exists>j. store_get_value (Some s) (Some k) h = Inr (Some (value (pairs s ! j)), Some s)
            \<and> j < length (pairs s) \<and> fst (entries s h ! j) = k \<and> (\<forall>m<j. fst (entries s h ! m) \<noteq> k))
       \<or> (store_get_value (Some s) (Some k) h = Inr (None, Some s) \<and> k \<notin> fst ` set (entries s h))"
proof -
  have m: "\<not> mutex s" using w by (simp add: wf_def)
  from find_pair_wf[OF w, of k] show ?thesis
    unfolding get_unfold[OF m] by auto
qed

lemma step_wf:
  assumes "step (s, h) (s', h')" "wf s h"
  shows "wf s' h' \<and> (capacity s' = capacity s \<or> capacity s' = 2 * capacity s \<and> item_count s = capacity s)
         \<and> (capacity s \<le> room s \<longrightarrow> capacity s' \<le> room s')"
  using assms
proof (cases rule: step.cases)
  case (step_upsert k v ok)
  from assms(2) step_upsert(1) show ?thesis
    by (rule upsert_any) simp
next
  case (step_lookup k r)
  have "s' = s"
  proof (cases k)
    case None then show ?thesis using step_lookup(2) get_null(2)[of "Some s" h] by simp
  next
    case (Some kb)
    then show ?thesis using step_lookup(2) get_wf[OF assms(2), of kb] by auto
  qed
  then show ?thesis using assms(2) step_lookup(1) by simp
next
  case (step_allocator gs)
  then show ?thesis using assms(2) by (simp add: wf_def heap_ok_def entries_def)
qed

lemma create_cases:
  "store_create n ok h = Inr (r, h') \<Longrightarrow>
     live h' = live h \<and> brk h' = brk h \<and>
     (r = None \<or>
      r = Some \<lparr>mutex = False, add_count = 0, capacity = unat (if n = 0 then 8 else n),
                pairs = [], room = slots (store_bytes (unat (if n = 0 then 8 else n)))\<rparr>
        \<and> store_bytes (unat (if n = 0 then 8 else n)) \<le> PTRDIFF_MAX)"
  by (auto simp: store_create_def grant_bytes_def grant_def Let_def
           split: list.splits bool.splits if_splits)

lemma create_wf:
  assumes "heap_ok h" "store_create n ok h = Inr (Some s, h')"
  shows "wf s h'"
proof -
  let ?n = "unat (if n = 0 then 8 else n)"
  from create_cases[OF assms(2)] have l: "live h' = live h" "brk h' = brk h"
    and s: "s = \<lparr>mutex = False, add_count = 0, capacity = ?n, pairs = [],
                room = slots (store_bytes ?n)\<rparr>"
    and b: "store_bytes ?n \<le> PTRDIFF_MAX" by auto
  have r: "slots (store_bytes ?n) \<le> MAX_ROOM" using b by (rule slots_le_MAX_ROOM)
  have pos: "0 < ?n" by (simp add: unat_gt_0)
  show ?thesis
    using assms(1) l r pos unfolding s
    by (simp add: wf_def heap_ok_def item_count_def owned_def entries_def)
qed

lemma create_valid:
  assumes "heap_ok h" "store_create n ok h = Inr (Some s, h')" "unat n \<le> MAX_ROOM"
  shows "valid s h'"
proof -
  let ?n = "unat (if n = 0 then 8 else n)"
  have n: "?n \<le> 2 * MAX_ROOM" using assms(3) unfolding MAX_ROOM_eq by simp
  from create_cases[OF assms(2)]
  have s: "s = \<lparr>mutex = False, add_count = 0, capacity = ?n, pairs = [],
                room = slots (store_bytes ?n)\<rparr>" by auto
  have "capacity s \<le> room s" unfolding s slots_store_bytes[OF n] by simp
  moreover have "wf s h'" using assms(1,2) by (rule create_wf)
  ultimately show ?thesis by (simp add: valid_def)
qed

lemma reachable_wf: "reachable s h \<Longrightarrow> wf s h"
proof (induction rule: reachable.induct)
  case (reachable_create h0 n mtx_ok s h)
  from reachable_create(1,2) show ?case by (rule create_wf)
next
  case (reachable_step s h s' h')
  then show ?case using step_wf by blast
qed

subsection \<open>Evaluation on concrete stores\<close>

lemmas upsert_eval = store_add_or_update_item_def mtx_lock_def mtx_unlock_def insert_item_def
  update_item_def grow_def duplicate_string_def grant_def free_def item_count_def
  grant_bytes_def store_bytes_def slots_def SIZE_MODULUS_def PTRDIFF_MAX_def
  sizeof_KeyValueStore_def sizeof_KeyValuePair_def sizeof_mtx_t_def

lemma full_store_created:
  "session 1 True [(Some ''a'', Some ''x'')] (empty_heap (True # True # True # gs))
   = Inr ([True], Some (Some full_store), full_heap gs)"
  by (simp add: session_def store_create_def empty_heap_def full_store_def full_heap_def upsert_eval)

lemma wf_full_store: "wf full_store (full_heap gs)"
  by (simp add: wf_def full_store_def full_heap_def heap_ok_def item_count_def owned_def entries_def
        MAX_ROOM_eq)

lemma valid_full_store: "valid full_store (full_heap gs)"
  using wf_full_store[of gs] by (simp add: valid_def full_store_def)

lemma entries_full_store: "entries full_store (full_heap gs) = [(''a'', ''x'')]"
  by (simp add: full_store_def full_heap_def entries_def)

lemma full_store_insert_refused:
  "store_add_or_update_item (Some (Some full_store)) (Some ''b'') (Some ''y'') (full_heap [True, False])
   = Inr (False, Some (Some (full_store\<lparr>capacity := 2, room := 2\<rparr>)), full_heap [])"
  by (simp add: full_store_def full_heap_def upsert_eval)

lemma full_store_update:
  "store_add_or_update_item (Some (Some full_store)) (Some ''a'') (Some ''z'') (full_heap [True])
   = Inr (True, Some (Some (updated full_store 0 2)),
          \<lparr>live = (\<lambda>a. None)(0 \<mapsto> ''a'', 2 \<mapsto> ''z''), brk = 3, grants = []\<rparr>)"
  by (simp add: full_store_def full_heap_def upsert_eval updated_def find_pair.simps fun_upd_twist)

lemma full_store_lookup:
  "store_get_value (Some full_store) (Some ''a'') (full_heap gs) = Inr (Some 1, Some full_store)"
  by (simp add: full_store_def full_heap_def store_get_value_def mtx_lock_def mtx_unlock_def)


lemma full_store_insert:
  "store_add_or_update_item (Some (Some full_store)) (Some ''b'') (Some ''y'')
     (full_heap [True, True, True])
   = Inr (True,
          Some (Some \<lparr>mutex = False, add_count = 2, capacity = 2,
                      pairs = [\<lparr>key = 0, value = 1\<rparr>, \<lparr>key = 2, value = 3\<rparr>], room = 2\<rparr>),
          \<lparr>live = (\<lambda>a. None)(0 \<mapsto> ''a'', 1 \<mapsto> ''x'', 2 \<mapsto> ''b'', 3 \<mapsto> ''y''),
            brk = 4, grants = []\<rparr>)"
  by (simp add: full_store_def full_heap_def upsert_eval)

subsection \<open>Capacity after an insert attempt\<close>

lemma insert_item_capacity:
  assumes "wf s h" "insert_item (s\<lparr>mutex := True\<rparr>) k v h = Inr (b, s', h')"
  shows "capacity s' = (if item_count s = capacity s \<and> store_bytes (2 * capacity s) \<le> PTRDIFF_MAX
                           \<and> (\<exists>gs. grants h = True # gs)
                        then 2 * capacity s else capacity s)
       \<and> room s' = (if item_count s = capacity s \<and> store_bytes (2 * capacity s) \<le> PTRDIFF_MAX
                           \<and> (\<exists>gs. grants h = True # gs)
                        then 2 * capacity s else room s)"
proof -
  have m: "\<not> mutex s" and le: "item_count s \<le> capacity s"
    using assms(1) by (auto simp: wf_def heap_ok_def)
  show ?thesis
    using assms(2) m le
    by (auto simp: insert_item_def grow_locked[OF assms(1)] duplicate_string_def grant_def free_def
                   mtx_unlock_def item_count_def
             split: list.splits bool.splits option.splits prod.splits if_splits)
qed

lemma upsert_absent_capacity:
  assumes w: "wf s h" and a: "k \<notin> fst ` set (entries s h)"
    and r: "store_add_or_update_item (Some (Some s)) (Some k) (Some v) h = Inr (b, Some (Some s'), h')"
  shows "capacity s' = (if item_count s = capacity s \<and> store_bytes (2 * capacity s) \<le> PTRDIFF_MAX
                           \<and> (\<exists>gs. grants h = True # gs)
                        then 2 * capacity s else capacity s)
       \<and> room s' = (if item_count s = capacity s \<and> store_bytes (2 * capacity s) \<le> PTRDIFF_MAX
                           \<and> (\<exists>gs. grants h = True # gs)
                        then 2 * capacity s else room s)"
proof -
  have m: "\<not> mutex s" using w by (simp add: wf_def)
  from find_pair_wf[OF w, of k] a have f: "find_pair h (room s) (pairs s) k 0 = Inr None"
    by (metis length_entries nth_mem image_eqI)
  from r have "insert_item (s\<lparr>mutex := True\<rparr>) k v h = Inr (b, s', h')"
    unfolding upsert_unfold[OF m] f by (auto split: sum.splits)
  with w show ?thesis by (rule insert_item_capacity)
qed

subsection \<open>Creation and reachability\<close>

lemma wf_empty_heap: "heap_ok (empty_heap gs)"
  by (simp add: heap_ok_def empty_heap_def)

lemma create_eval:
  assumes "0 < n" "n \<le> MAX_ROOM"
  shows "store_create (of_nat n) True (empty_heap (True # gs)) =
     Inr (Some \<lparr>mutex = False, add_count = 0, capacity = n, pairs = [], room = n\<rparr>,
          empty_heap gs)"
proof -
  have n: "n \<le> 2 * MAX_ROOM" using assms(2) by simp
  have "n < 2 ^ 64" using assms(2) unfolding MAX_ROOM_eq by simp
  then have u: "unat (of_nat n :: size_t) = n" by (simp add: unat_of_nat)
  then have z: "(of_nat n :: size_t) \<noteq> 0" using assms(1) by auto
  have b: "store_bytes n = 64 + 16 * n" using n by (rule store_bytes_small)
  have p: "\<not> PTRDIFF_MAX < store_bytes n"
    unfolding b using assms(2) unfolding MAX_ROOM_eq PTRDIFF_MAX_def by simp
  have sl: "slots (store_bytes n) = n" using n by (rule slots_store_bytes)
  have q: "\<not> store_bytes n < sizeof_mtx_t" "\<not> store_bytes n < sizeof_KeyValueStore"
    unfolding b by (simp_all add: sizeof_mtx_t_def sizeof_KeyValueStore_def)
  show ?thesis
    using z p sl q
    by (simp add: store_create_def grant_bytes_def grant_def empty_heap_def u)
qed

lemma reachable_full_store: "reachable full_store (full_heap gs)"
proof -
  let ?h = "empty_heap (True # True # True # gs)"
  let ?s0 = "\<lparr>mutex = False, add_count = 0, capacity = 1, pairs = [], room = 1\<rparr>"
  have c: "store_create 1 True ?h = Inr (Some ?s0, empty_heap (True # True # gs))"
    using create_eval[of 1 "True # True # gs"] by (simp add: MAX_ROOM_eq)
  have r0: "reachable ?s0 (empty_heap (True # True # gs))"
    using wf_empty_heap c by (rule reachable_create)
  have "store_add_or_update_item (Some (Some ?s0)) (Some ''a'') (Some ''x'') (empty_heap (True # True # gs))
        = Inr (True, Some (Some full_store), full_heap gs)"
    by (simp add: empty_heap_def full_store_def full_heap_def upsert_eval)
  then have "step (?s0, empty_heap (True # True # gs)) (full_store, full_heap gs)"
    by (rule step_upsert)
  with r0 show ?thesis by (rule reachable_step)
qed

subsection \<open>Lookup on a well-formed store\<close>

lemma lookup_spec:
  assumes "wf s h"
  shows "\<exists>r. store_get_value (Some s) (Some k) h = Inr (r, Some s)
           \<and> (case r of
                 None \<Rightarrow> k \<notin> fst ` set (entries s h)
               | Some a \<Rightarrow> \<exists>j<item_count s. a = value (pairs s ! j) \<and> live h a \<noteq> None
                              \<and> entries s h ! j = (k, the (live h a)))
           \<and> map_option (\<lambda>a. the (live h a)) r = map_of (entries s h) k"
proof -
  have d: "distinct (map fst (entries s h))" using assms by (simp add: wf_def)
  from get_wf[OF assms, of k] show ?thesis
  proof (elim disjE exE conjE)
    fix j
    assume g: "store_get_value (Some s) (Some k) h = Inr (Some (value (pairs s ! j)), Some s)"
      and j: "j < length (pairs s)" and kj: "fst (entries s h ! j) = k"
    let ?a = "value (pairs s ! j)"
    have "?a \<in> set (owned s)" using assms j by (rule owned_nth)
    then have lv: "live h ?a \<noteq> None" using assms by (simp add: wf_def)
    have e: "entries s h ! j = (k, the (live h ?a))"
      using j kj by (simp add: entries_def)
    have "(k, the (live h ?a)) \<in> set (entries s h)"
      using j e by (metis length_entries nth_mem)
    then have "map_of (entries s h) k = Some (the (live h ?a))"
      using d by simp
    then show ?thesis using g j lv e by (auto simp: item_count_def)
  next
    assume g: "store_get_value (Some s) (Some k) h = Inr (None, Some s)"
      and a: "k \<notin> fst ` set (entries s h)"
    then have "map_of (entries s h) k = None" by (simp add: map_of_eq_None_iff)
    then show ?thesis using g a by simp
  qed
qed

subsection \<open>Runs of calls\<close>

lemma upserts_wf:
  assumes "wf s h" "upserts cs (Some (Some s)) h = Inr (oks, sp', h')"
  shows "\<exists>s'. sp' = Some (Some s') \<and> wf s' h' \<and> length oks = length cs
           \<and> add_count s' = add_count s + of_nat (length (filter (\<lambda>b. b) oks))
           \<and> capacity s \<le> capacity s'"
  using assms
proof (induction cs arbitrary: s h oks)
  case Nil
  then show ?case by auto
next
  case (Cons c cs)
  from Cons.prems(2) obtain ok sp1 h1 oks1
    where c: "store_add_or_update_item (Some (Some s)) (fst c) (snd c) h = Inr (ok, sp1, h1)"
      and rest: "upserts cs sp1 h1 = Inr (oks1, sp', h')" and oks: "oks = ok # oks1"
    by (auto split: sum.splits prod.splits)
  from Cons.prems(1) c obtain s1 where s1: "sp1 = Some (Some s1)" "wf s1 h1"
    "add_count s1 = (if ok then add_count s + 1 else add_count s)"
    "capacity s1 = capacity s \<or> capacity s1 = 2 * capacity s \<and> item_count s = capacity s"
    by (rule upsert_any)
  from Cons.IH[OF s1(2) rest[unfolded s1(1)]] obtain s' where s': "sp' = Some (Some s')" "wf s' h'"
    "length oks1 = length cs" "add_count s' = add_count s1 + of_nat (length (filter (\<lambda>b. b) oks1))"
    "capacity s1 \<le> capacity s'" by blast
  have "capacity s \<le> capacity s1" using s1(4) by auto
  then show ?case using s' s1(3) oks by auto
qed

lemma upserts_all_ok:
  assumes "wf s h"
    and "upserts (map (\<lambda>kv. (Some (fst kv), Some (snd kv))) kvs) (Some (Some s)) h = Inr (oks, sp', h')"
    and "\<forall>ok\<in>set oks. ok"
  shows "\<exists>s'. sp' = Some (Some s') \<and> wf s' h'
           \<and> entries s' h' = fold (\<lambda>kv. AList.update (fst kv) (snd kv)) kvs (entries s h)"
  using assms
proof (induction kvs arbitrary: s h oks)
  case Nil
  then show ?case by auto
next
  case (Cons c kvs)
  from Cons.prems(2) obtain ok sp1 h1 oks1
    where c: "store_add_or_update_item (Some (Some s)) (Some (fst c)) (Some (snd c)) h = Inr (ok, sp1, h1)"
      and rest: "upserts (map (\<lambda>kv. (Some (fst kv), Some (snd kv))) kvs) sp1 h1 = Inr (oks1, sp', h')"
      and oks: "oks = ok # oks1"
    by (auto split: sum.splits prod.splits)
  have ok: "ok" and ok1: "\<forall>ok\<in>set oks1. ok" using Cons.prems(3) oks by auto
  from Cons.prems(1) c obtain s1 where s1: "sp1 = Some (Some s1)" "wf s1 h1"
    "entries s1 h1 = (if ok then AList.update (fst c) (snd c) (entries s h) else entries s h)"
    by (rule upsert_step)
  from Cons.IH[OF s1(2) rest[unfolded s1(1)] ok1] show ?case
    using s1(3) ok by simp
qed

lemma fold_update_fresh:
  "distinct (map fst kvs) \<Longrightarrow> fst ` set kvs \<inter> fst ` set al = {} \<Longrightarrow>
     fold (\<lambda>kv. AList.update (fst kv) (snd kv)) kvs al = al @ kvs"
proof (induction kvs arbitrary: al)
  case Nil
  then show ?case by simp
next
  case (Cons c kvs)
  have a: "fst c \<notin> fst ` set al" using Cons.prems(2) by auto
  then have u: "AList.update (fst c) (snd c) al = al @ [c]" by (simp add: update_absent)
  have "fst ` set kvs \<inter> fst ` set (al @ [c]) = {}"
    using Cons.prems by auto
  with Cons.prems(1) have "fold (\<lambda>kv. AList.update (fst kv) (snd kv)) kvs (al @ [c]) = (al @ [c]) @ kvs"
    by (intro Cons.IH) simp_all
  then show ?case using u by simp
qed

lemma three_inserts:
  "upserts [(Some ''a'', Some ''x''), (Some ''b'', Some ''y''), (Some ''c'', Some ''z'')]
     (Some (Some \<lparr>mutex = False, add_count = 0, capacity = 1, pairs = [], room = 1\<rparr>))
     (empty_heap (replicate 8 True @ gs))
   = Inr ([True, True, True], Some (Some grown_store), grown_heap gs)"
proof -
  have g: "replicate 8 True @ gs = True # True # True # True # True # True # True # True # gs"
    by (simp add: numeral_eq_Suc)
  show ?thesis
    unfolding g
    by (simp add: empty_heap_def upsert_eval grown_store_def grown_heap_def
          numeral_2_eq_2[symmetric])
qed

lemma update_granted:
  assumes w: "wf s h" and k: "k \<in> fst ` set (entries s h)" and g: "grants h = True # gs"
  shows "\<exists>s' h'. store_add_or_update_item (Some (Some s)) (Some k) (Some v) h
                    = Inr (True, Some (Some s'), h')
           \<and> wf s' h' \<and> k \<in> fst ` set (entries s' h') \<and> grants h' = gs
           \<and> add_count s' = add_count s + 1"
proof -
  have m: "\<not> mutex s" using w by (simp add: wf_def)
  from find_pair_wf[OF w, of k] k obtain j where f: "find_pair h (room s) (pairs s) k 0 = Inr (Some j)"
    and j: "j < length (pairs s)" and kj: "fst (entries s h ! j) = k" by auto
  let ?h' = "h\<lparr>live := (live h)(brk h \<mapsto> v, value (pairs s ! j) := None),
                 brk := Suc (brk h), grants := gs\<rparr>"
  let ?s' = "updated s j (brk h)"
  have r: "store_add_or_update_item (Some (Some s)) (Some k) (Some v) h = Inr (True, Some (Some ?s'), ?h')"
    unfolding upsert_unfold[OF m] f using update_item_result[OF w j, of v] g by simp
  have w': "wf ?s' ?h'" by (rule wf_updated(1)[OF w j]) simp_all
  have e: "entries ?s' ?h' = (entries s h)[j := (fst (entries s h ! j), v)]"
    by (rule wf_updated(2)[OF w j]) simp_all
  have "k \<in> fst ` set (entries ?s' ?h')"
  proof -
    have "j < length (entries ?s' ?h')" using j unfolding e by (simp add: length_entries)
    then have "entries ?s' ?h' ! j \<in> set (entries ?s' ?h')" by (rule nth_mem)
    moreover have "fst (entries ?s' ?h' ! j) = k"
      unfolding e using j kj by (simp add: length_entries)
    ultimately show ?thesis by (metis image_eqI)
  qed
  moreover have "add_count ?s' = add_count s + 1" by (simp add: updated_def)
  ultimately show ?thesis using r w' by (intro exI[of _ ?s'] exI[of _ ?h']) simp
qed

lemma repeat_update:
  assumes "wf s h" "k \<in> fst ` set (entries s h)" "grants h = replicate n True @ gs"
  shows "\<exists>s' h'. upserts (replicate n (Some k, Some v)) (Some (Some s)) h
                    = Inr (replicate n True, Some (Some s'), h')
           \<and> add_count s' = add_count s + of_nat n"
  using assms
proof (induction n arbitrary: s h)
  case 0
  then show ?case by simp
next
  case (Suc n)
  from Suc.prems(3) have g: "grants h = True # (replicate n True @ gs)" by simp
  from update_granted[OF Suc.prems(1,2) g, of v] obtain s1 h1
    where c: "store_add_or_update_item (Some (Some s)) (Some k) (Some v) h = Inr (True, Some (Some s1), h1)"
      and s1: "wf s1 h1" "k \<in> fst ` set (entries s1 h1)" "grants h1 = replicate n True @ gs"
        "add_count s1 = add_count s + 1" by blast
  from Suc.IH[OF s1(1,2,3)] obtain s' h'
    where r: "upserts (replicate n (Some k, Some v)) (Some (Some s1)) h1
                = Inr (replicate n True, Some (Some s'), h')"
      and a: "add_count s' = add_count s1 + of_nat n" by blast
  have "upserts (replicate (Suc n) (Some k, Some v)) (Some (Some s)) h
          = Inr (replicate (Suc n) True, Some (Some s'), h')"
    using c r by simp
  moreover have "add_count s' = add_count s + of_nat (Suc n)" using a s1(4) by simp
  ultimately show ?case by blast
qed

lemma many_upserts:
  "\<exists>s' h'. session 1 True (replicate (Suc n) (Some ''a'', Some ''x''))
              (empty_heap (replicate (n + 3) True))
            = Inr (replicate (Suc n) True, Some (Some s'), h')
         \<and> add_count s' = of_nat (Suc n)"
proof -
  let ?s0 = "\<lparr>mutex = False, add_count = 0, capacity = 1, pairs = [], room = 1\<rparr>"
  have g: "replicate (n + 3) True = True # True # True # replicate n True"
    by (simp add: numeral_3_eq_3)
  have c: "store_create 1 True (empty_heap (replicate (n + 3) True))
           = Inr (Some ?s0, empty_heap (True # True # replicate n True))"
    unfolding g using create_eval[of 1 "True # True # replicate n True"] by (simp add: MAX_ROOM_eq)
  have first: "store_add_or_update_item (Some (Some ?s0)) (Some ''a'') (Some ''x'')
         (empty_heap (True # True # replicate n True))
       = Inr (True, Some (Some full_store), full_heap (replicate n True))"
    by (simp add: empty_heap_def full_store_def full_heap_def upsert_eval)
  have k: "''a'' \<in> fst ` set (entries full_store (full_heap (replicate n True)))"
    by (simp add: entries_full_store)
  have gr: "grants (full_heap (replicate n True)) = replicate n True @ []"
    by (simp add: full_heap_def)
  from repeat_update[OF wf_full_store k gr, of "''x''"] obtain s' h'
    where r: "upserts (replicate n (Some ''a'', Some ''x'')) (Some (Some full_store))
                (full_heap (replicate n True)) = Inr (replicate n True, Some (Some s'), h')"
      and a: "add_count s' = add_count full_store + of_nat n" by blast
  have "add_count s' = of_nat (Suc n)" using a by (simp add: full_store_def)
  moreover have "session 1 True (replicate (Suc n) (Some ''a'', Some ''x''))
              (empty_heap (replicate (n + 3) True))
            = Inr (replicate (Suc n) True, Some (Some s'), h')"
    unfolding session_def c using first r by simp
  ultimately show ?thesis by blast
qed

subsection \<open>The keys of the demonstration program\<close>

lemma digit_char_inj: "a < 10 \<Longrightarrow> b < 10 \<Longrightarrow> digit_char a = digit_char b \<Longrightarrow> a = b"
proof -
  assume a: "a < 10" and b: "b < 10" and e: "digit_char a = digit_char b"
  have d: "distinct ''0123456789''" by simp
  have l: "length ''0123456789'' = 10" by simp
  from e have "''0123456789'' ! a = ''0123456789'' ! b" by (simp only: digit_char_def)
  with d a b l show "a = b" by (simp only: nth_eq_iff_index_eq)
qed

lemma digit_char_set: "d < 10 \<Longrightarrow> digit_char d \<in> set ''0123456789''"
  unfolding digit_char_def by (rule nth_mem) simp

lemma dec_nonempty: "dec n \<noteq> []"
  by (subst dec.simps) simp

lemma dec_set: "set (dec n) \<subseteq> set ''0123456789''"
proof (induction n rule: dec.induct)
  case (1 n)
  show ?case
  proof (cases "n < 10")
    case True
    then show ?thesis using digit_char_set[of n] by (subst dec.simps) simp
  next
    case False
    have "n mod 10 < 10" by simp
    then have "digit_char (n mod 10) \<in> set ''0123456789''" by (rule digit_char_set)
    with False 1 show ?thesis by (subst dec.simps) simp
  qed
qed

lemma dec_no_underscore: "CHR ''_'' \<notin> set (dec n)"
  using dec_set[of n] by auto

lemma dec_inj: "dec n = dec m \<Longrightarrow> n = m"
proof (induction n arbitrary: m rule: dec.induct)
  case (1 n)
  show ?case
  proof (cases "n < 10")
    case n: True
    show ?thesis
    proof (cases "m < 10")
      case True
      with n 1(2) show ?thesis
        by (subst (asm) dec.simps, subst (asm) (2) dec.simps) (simp add: digit_char_inj)
    next
      case False
      have "dec m = dec (m div 10) @ [digit_char (m mod 10)]"
        using False by (subst dec.simps) simp
      moreover have "dec n = [digit_char n]" using n by (subst dec.simps) simp
      ultimately show ?thesis using 1(2) dec_nonempty[of "m div 10"] by (cases "dec (m div 10)") auto
    qed
  next
    case n: False
    have en: "dec n = dec (n div 10) @ [digit_char (n mod 10)]"
      using n by (subst dec.simps) simp
    show ?thesis
    proof (cases "m < 10")
      case True
      then have "dec m = [digit_char m]" by (subst dec.simps) simp
      with en 1(2) dec_nonempty[of "n div 10"] show ?thesis by (cases "dec (n div 10)") auto
    next
      case False
      have em: "dec m = dec (m div 10) @ [digit_char (m mod 10)]"
        using False by (subst dec.simps) simp
      from 1(2) en em have a: "dec (n div 10) = dec (m div 10)"
        and b: "digit_char (n mod 10) = digit_char (m mod 10)" by simp_all
      from 1(1)[OF n a] have "n div 10 = m div 10" .
      moreover from b have "n mod 10 = m mod 10" by (intro digit_char_inj) simp_all
      ultimately show ?thesis by (metis div_mult_mod_eq)
    qed
  qed
qed

lemma split_at_mark:
  "c \<notin> set xs \<Longrightarrow> c \<notin> set ys \<Longrightarrow> xs @ c # r = ys @ c # r' \<Longrightarrow> xs = ys \<and> r = r'"
proof (induction xs arbitrary: ys)
  case Nil
  then show ?case by (cases ys) auto
next
  case (Cons x xs)
  then show ?case by (cases ys) auto
qed

lemma key_buffer_inj: "key_buffer t i = key_buffer u j \<Longrightarrow> t = u \<and> i = j"
proof -
  assume "key_buffer t i = key_buffer u j"
  then have "dec t @ CHR ''_'' # (CHR ''i'' # dec i) = dec u @ CHR ''_'' # (CHR ''i'' # dec j)"
    by (simp add: key_buffer_def)
  from split_at_mark[OF dec_no_underscore dec_no_underscore this]
  have "dec t = dec u" "dec i = dec j" by simp_all
  then show ?thesis by (simp add: dec_inj)
qed

subsection \<open>Interleavings\<close>

lemma interleaving_length:
  "interleaving xss zs \<Longrightarrow> length zs = sum_list (map length xss)"
proof (induction rule: interleaving.induct)
  case (interleaving_done xss)
  then have "map length xss = map (\<lambda>_. 0) xss" by (intro map_cong) simp_all
  then show ?case by simp
next
  case (interleaving_next t xss x xs zs)
  have "sum_list (map length (xss[t := xs])) = sum_list ((map length xss)[t := length xs])"
    by (simp add: map_update)
  also have "\<dots> = sum_list (map length xss) + length xs - map length xss ! t"
    using interleaving_next(1) by (simp add: sum_list_update)
  also have "\<dots> = sum_list (map length xss) - 1"
    using interleaving_next(1,2) by simp
  finally have e: "length zs = sum_list (map length xss) - 1" using interleaving_next.IH by simp
  have "map length xss ! t \<in> set (map length xss)"
    using interleaving_next(1) by (intro nth_mem) simp
  then have "map length xss ! t \<le> sum_list (map length xss)" by (simp add: member_le_sum_list)
  then have "1 \<le> sum_list (map length xss)" using interleaving_next(1,2) by simp
  with e show ?case by simp
qed

lemma interleaving_set:
  "interleaving xss zs \<Longrightarrow> set zs = \<Union> (set ` set xss)"
proof (induction rule: interleaving.induct)
  case (interleaving_done xss)
  then show ?case by auto
next
  case (interleaving_next t xss x xs zs)
  have mem: "xss ! t \<in> set xss" using interleaving_next(1) by simp
  have sub: "set (xss[t := xs]) \<subseteq> insert xs (set xss)" by (rule set_update_subset_insert)
  have xs_in: "xs \<in> set (xss[t := xs])" using interleaving_next(1) by (rule set_update_memI)
  show ?case
  proof (rule set_eqI)
    fix y
    show "y \<in> set (x # zs) \<longleftrightarrow> y \<in> \<Union> (set ` set xss)"
    proof
      assume "y \<in> set (x # zs)"
      then consider "y = x" | "y \<in> set zs" by auto
      then show "y \<in> \<Union> (set ` set xss)"
      proof cases
        case 1
        then have "y \<in> set (xss ! t)" using interleaving_next(2) by simp
        then show ?thesis using mem by blast
      next
        case 2
        then obtain ys where ys: "ys \<in> set (xss[t := xs])" "y \<in> set ys"
          using interleaving_next.IH by auto
        then have "ys = xs \<or> ys \<in> set xss" using sub by auto
        then show ?thesis
        proof
          assume "ys = xs"
          then have "y \<in> set (xss ! t)" using ys(2) interleaving_next(2) by simp
          then show ?thesis using mem by blast
        next
          assume "ys \<in> set xss"
          then show ?thesis using ys(2) by blast
        qed
      qed
    next
      assume "y \<in> \<Union> (set ` set xss)"
      then obtain ys where ys: "ys \<in> set xss" "y \<in> set ys" by auto
      then obtain u where u: "u < length xss" "ys = xss ! u" by (auto simp: in_set_conv_nth)
      show "y \<in> set (x # zs)"
      proof (cases "u = t")
        case True
        then have "y = x \<or> y \<in> set xs" using ys(2) u(2) interleaving_next(2) by simp
        then show ?thesis using xs_in interleaving_next.IH by auto
      next
        case False
        then have "xss[t := xs] ! u = ys" using u by simp
        moreover have "xss[t := xs] ! u \<in> set (xss[t := xs])" using u(1) by (intro nth_mem) simp
        ultimately have "ys \<in> set (xss[t := xs])" by simp
        then have "y \<in> set zs" using ys(2) interleaving_next.IH by auto
        then show ?thesis by simp
      qed
    qed
  qed
qed

lemma interleaving_filter:
  "interleaving xss zs \<Longrightarrow> interleaving (map (filter P) xss) (filter P zs)"
proof (induction rule: interleaving.induct)
  case (interleaving_done xss)
  then have "\<forall>xs\<in>set (map (filter P) xss). xs = []" by auto
  then show ?case by (simp add: interleaving.interleaving_done)
next
  case (interleaving_next t xss x xs zs)
  have upd: "(map (filter P) xss)[t := filter P xs] = map (filter P) (xss[t := xs])"
    by (simp add: map_update)
  show ?case
  proof (cases "P x")
    case True
    have "map (filter P) xss ! t = x # filter P xs"
      using interleaving_next(1,2) True by simp
    moreover have "t < length (map (filter P) xss)" using interleaving_next(1) by simp
    moreover have "interleaving ((map (filter P) xss)[t := filter P xs]) (filter P zs)"
      unfolding upd by (rule interleaving_next.IH)
    ultimately have "interleaving (map (filter P) xss) (x # filter P zs)"
      by (intro interleaving.interleaving_next[where t = t and xs = "filter P xs"])
    then show ?thesis using True by simp
  next
    case False
    have "map (filter P) xss ! t = filter P xs"
      using interleaving_next(1,2) False by simp
    then have "(map (filter P) xss)[t := filter P xs] = map (filter P) xss"
      using list_update_id[of "map (filter P) xss" t] by simp
    then have "interleaving (map (filter P) xss) (filter P zs)"
      using interleaving_next.IH upd by simp
    then show ?thesis using False by simp
  qed
qed

lemma interleaving_single:
  "interleaving xss zs \<Longrightarrow> t < length xss \<Longrightarrow> \<forall>u<length xss. u \<noteq> t \<longrightarrow> xss ! u = []
     \<Longrightarrow> zs = xss ! t"
proof (induction rule: interleaving.induct)
  case (interleaving_done xss)
  have "xss ! t \<in> set xss" using interleaving_done(2) by (rule nth_mem)
  with interleaving_done(1) have "xss ! t = []" by (rule bspec)
  then show ?case by (rule sym)
next
  case (interleaving_next t' xss x xs zs)
  have "t' = t"
  proof (rule ccontr)
    assume "t' \<noteq> t"
    then have "xss ! t' = []" using interleaving_next(1,6) by simp
    then show False using interleaving_next(2) by simp
  qed
  have "\<forall>u<length (xss[t' := xs]). u \<noteq> t \<longrightarrow> xss[t' := xs] ! u = []"
    using interleaving_next(6) \<open>t' = t\<close> by simp
  moreover have "t < length (xss[t' := xs])" using interleaving_next(5) by simp
  ultimately have "zs = xss[t' := xs] ! t" by (rule interleaving_next.IH[rotated])
  then show ?case using \<open>t' = t\<close> interleaving_next(1,2) by simp
qed

lemma interleaving_concat_pre:
  "\<forall>xs\<in>set pre. xs = [] \<Longrightarrow> interleaving (pre @ xss) (concat xss)"
proof (induction xss arbitrary: pre)
  case Nil
  then show ?case by (simp add: interleaving_done)
next
  case (Cons xs xss)
  show ?case using Cons.prems
  proof (induction xs)
    case Nil
    have "\<forall>ys\<in>set (pre @ [[]]). ys = []" using Nil by auto
    from Cons.IH[OF this] show ?case by simp
  next
    case (Cons x xs)
    have "length pre < length (pre @ (x # xs) # xss)" by simp
    moreover have "(pre @ (x # xs) # xss) ! length pre = x # xs" by simp
    moreover have "interleaving ((pre @ (x # xs) # xss)[length pre := xs]) (xs @ concat xss)"
      using Cons.IH[OF Cons.prems] by simp
    ultimately have "interleaving (pre @ (x # xs) # xss) (x # (xs @ concat xss))"
      by (rule interleaving_next)
    then show ?case by simp
  qed
qed

lemma interleaving_concat: "interleaving xss (concat xss)"
  using interleaving_concat_pre[of "[]" xss] by simp

subsection \<open>Association lists and the calls of the workers\<close>

lemma map_of_fold_update:
  "map_of (fold (\<lambda>kv. AList.update (fst kv) (snd kv)) zs al) = map_of al ++ map_of (rev zs)"
proof (induction zs arbitrary: al)
  case Nil
  then show ?case by simp
next
  case (Cons z zs)
  have "map_of (fold (\<lambda>kv. AList.update (fst kv) (snd kv)) (z # zs) al)
        = map_of (AList.update (fst z) (snd z) al) ++ map_of (rev zs)"
    using Cons.IH by simp
  also have "map_of (AList.update (fst z) (snd z) al) = map_of al ++ map_of [z]"
    by (cases z) (simp add: update_conv')
  also have "(map_of al ++ map_of [z]) ++ map_of (rev zs) = map_of al ++ map_of (rev (z # zs))"
    by simp
  finally show ?case .
qed

lemma keys_fold_update:
  "fst ` set (fold (\<lambda>kv. AList.update (fst kv) (snd kv)) zs al) = fst ` set al \<union> fst ` set zs"
proof (induction zs arbitrary: al)
  case Nil
  then show ?case by simp
next
  case (Cons z zs)
  have "fst ` set (AList.update (fst z) (snd z) al) = {fst z} \<union> fst ` set al"
    by (rule dom_update)
  then show ?case using Cons.IH by auto
qed

lemma map_of_filter_key: "map_of (filter (\<lambda>c. fst c = k) xs) k = map_of xs k"
  by (induction xs) auto

lemma filter_upt_eq: "i < n \<Longrightarrow> filter (\<lambda>j. j = i) [0..<n] = [i]"
proof (induction n)
  case 0
  then show ?case by simp
next
  case (Suc n)
  show ?case
  proof (cases "i = n")
    case True
    have "filter (\<lambda>j. j = n) [0..<n] = []" by (simp add: filter_empty_conv)
    then show ?thesis using True by simp
  next
    case False
    then have "i < n" using Suc.prems by simp
    then show ?thesis using Suc.IH False by simp
  qed
qed

lemma worker_filter_own:
  assumes "i < items"
  shows "filter (\<lambda>c. fst c = key_buffer t i) (worker_thread items t)
         = (key_buffer t i, value_buffer t) # (if i = 0 then [(key_buffer t 0, ''UPDATED_VALUE'')] else [])"
proof -
  have eq: "(key_buffer t j = key_buffer t i) = (j = i)" for j
    using key_buffer_inj[of t j t i] by auto
  have "filter (\<lambda>c. fst c = key_buffer t i) (map (\<lambda>j. (key_buffer t j, value_buffer t)) [0..<items])
        = map (\<lambda>j. (key_buffer t j, value_buffer t)) (filter (\<lambda>j. j = i) [0..<items])"
    by (simp add: filter_map comp_def eq)
  also have "\<dots> = [(key_buffer t i, value_buffer t)]"
    using assms by (simp add: filter_upt_eq)
  finally show ?thesis
    using eq[of 0] by (auto simp: worker_thread_def)
qed

lemma worker_filter_other:
  assumes "u \<noteq> t"
  shows "filter (\<lambda>c. fst c = key_buffer t i) (worker_thread items u) = []"
proof -
  have "key_buffer u j \<noteq> key_buffer t i" for j
    using key_buffer_inj[of u j t i] assms by auto
  then show ?thesis by (auto simp: worker_thread_def filter_empty_conv)
qed

lemma worker_keys:
  assumes "0 < items"
  shows "fst ` set (worker_thread items t) = key_buffer t ` {..<items}"
proof -
  have "fst ` set (map (\<lambda>i. (key_buffer t i, value_buffer t)) [0..<items]) = key_buffer t ` {..<items}"
    by (force simp: image_iff)
  moreover have "key_buffer t 0 \<in> key_buffer t ` {..<items}" using assms by simp
  ultimately show ?thesis by (auto simp: worker_thread_def)
qed

lemma worker_length: "length (worker_thread items t) = Suc items"
  by (simp add: worker_thread_def)

lemma all_keys:
  assumes "0 < items"
  shows "fst ` \<Union> (set ` set (map (worker_thread items) [0..<threads]))
         = (\<lambda>p. key_buffer (fst p) (snd p)) ` ({..<threads} \<times> {..<items})"
proof -
  have "set (map (worker_thread items) [0..<threads]) = worker_thread items ` {..<threads}"
    by (simp add: lessThan_atLeast0)
  then have "fst ` \<Union> (set ` set (map (worker_thread items) [0..<threads]))
        = (\<Union>t\<in>{..<threads}. fst ` set (worker_thread items t))"
    by (simp add: image_UN)
  also have "\<dots> = (\<Union>t\<in>{..<threads}. key_buffer t ` {..<items})"
    using worker_keys[OF assms] by simp
  also have "\<dots> = (\<lambda>p. key_buffer (fst p) (snd p)) ` ({..<threads} \<times> {..<items})"
    by (fastforce simp: image_iff)
  finally show ?thesis .
qed

lemma card_all_keys:
  "card ((\<lambda>p. key_buffer (fst p) (snd p)) ` ({..<threads} \<times> {..<items})) = threads * items"
proof -
  have "inj_on (\<lambda>p. key_buffer (fst p) (snd p)) ({..<threads} \<times> {..<items})"
    by (rule inj_onI) (auto dest: key_buffer_inj)
  then have "card ((\<lambda>p. key_buffer (fst p) (snd p)) ` ({..<threads} \<times> {..<items}))
             = card ({..<threads} \<times> {..<items})" by (rule card_image)
  then show ?thesis by (simp add: card_cartesian_product)
qed

lemma total_calls:
  "sum_list (map length (map (worker_thread items) [0..<threads])) = threads * Suc items"
proof -
  have "map length (map (worker_thread items) [0..<threads]) = map (\<lambda>t. Suc items) [0..<threads]"
    by (simp add: worker_length comp_def)
  then have "sum_list (map length (map (worker_thread items) [0..<threads]))
             = sum_list (map (\<lambda>t. Suc items) [0..<threads])" by (rule arg_cong)
  also have "\<dots> = threads * Suc items" by (simp add: sum_list_triv)
  finally show ?thesis .
qed

subsection \<open>The effect of a schedule of the workers\<close>

lemma schedule_final_value:
  assumes il: "interleaving (map (worker_thread items) [0..<threads]) kvs"
    and t: "t < threads" and i: "i < items"
  shows "map_of (rev kvs) (key_buffer t i)
         = Some (if i = 0 then ''UPDATED_VALUE'' else value_buffer t)"
proof -
  let ?k = "key_buffer t i"
  let ?P = "\<lambda>c. fst c = ?k"
  let ?W = "map (worker_thread items) [0..<threads]"
  have f: "interleaving (map (filter ?P) ?W) (filter ?P kvs)"
    using il by (rule interleaving_filter)
  have len: "t < length (map (filter ?P) ?W)" using t by simp
  have others: "\<forall>u<length (map (filter ?P) ?W). u \<noteq> t \<longrightarrow> map (filter ?P) ?W ! u = []"
    by (simp add: worker_filter_other)
  have "filter ?P kvs = map (filter ?P) ?W ! t"
    using f len others by (rule interleaving_single)
  also have "\<dots> = filter ?P (worker_thread items t)" using t by simp
  also have "\<dots> = (?k, value_buffer t) # (if i = 0 then [(key_buffer t 0, ''UPDATED_VALUE'')] else [])"
    using i by (rule worker_filter_own)
  finally have fk: "filter ?P kvs
      = (?k, value_buffer t) # (if i = 0 then [(key_buffer t 0, ''UPDATED_VALUE'')] else [])" .
  have "map_of (rev kvs) ?k = map_of (filter ?P (rev kvs)) ?k"
    by (simp only: map_of_filter_key)
  also have "filter ?P (rev kvs) = rev (filter ?P kvs)" by (simp only: rev_filter)
  finally show ?thesis unfolding fk by simp
qed

lemma schedule_effect:
  assumes il: "interleaving (map (worker_thread items) [0..<threads]) kvs"
    and items: "0 < items"
    and hk: "heap_ok h" and cr: "store_create n mtx_ok h = Inr (Some s0, h0)"
    and run: "upserts (map (\<lambda>kv. (Some (fst kv), Some (snd kv))) kvs) (Some (Some s0)) h0
              = Inr (oks, sp', h')"
    and ok: "\<forall>ok\<in>set oks. ok"
  shows "\<exists>s'. sp' = Some (Some s') \<and> wf s' h' \<and> item_count s' = threads * items
           \<and> add_count s' = of_nat (threads * items + threads)
           \<and> (\<forall>t<threads. \<forall>i<items.
                 \<exists>a. store_get_value (Some s') (Some (key_buffer t i)) h' = Inr (Some a, Some s')
                    \<and> live h' a = Some (if i = 0 then ''UPDATED_VALUE'' else value_buffer t))"
proof -
  let ?upd = "\<lambda>kv. AList.update (fst kv) (snd kv)"
  have w0: "wf s0 h0" using hk cr by (rule create_wf)
  have s0: "pairs s0 = []" "add_count s0 = 0" using create_cases[OF cr] by auto
  have e0: "entries s0 h0 = []" using s0(1) by (simp add: entries_def)
  from upserts_all_ok[OF w0 run ok] obtain s' where s': "sp' = Some (Some s')" "wf s' h'"
    "entries s' h' = fold ?upd kvs (entries s0 h0)" by blast
  have E: "entries s' h' = fold ?upd kvs []" using s'(3) e0 by simp
  have d: "distinct (map fst (entries s' h'))" using s'(2) by (simp add: wf_def)
  have "fst ` set (entries s' h') = fst ` set kvs" unfolding E by (simp add: keys_fold_update)
  also have "set kvs = \<Union> (set ` set (map (worker_thread items) [0..<threads]))"
    using il by (rule interleaving_set)
  also have "fst ` \<dots> = (\<lambda>p. key_buffer (fst p) (snd p)) ` ({..<threads} \<times> {..<items})"
    using items by (rule all_keys)
  finally have keys: "set (map fst (entries s' h'))
      = (\<lambda>p. key_buffer (fst p) (snd p)) ` ({..<threads} \<times> {..<items})" by simp
  have "length (map fst (entries s' h')) = card (set (map fst (entries s' h')))"
    using d by (simp only: distinct_card)
  also have "\<dots> = threads * items" unfolding keys by (rule card_all_keys)
  finally have n: "item_count s' = threads * items"
    by (simp add: length_entries item_count_def)
  from upserts_wf[OF w0 run] have lo: "length oks = length kvs"
    and c: "add_count s' = add_count s0 + of_nat (length (filter (\<lambda>b. b) oks))"
    using s'(1) by auto
  have "filter (\<lambda>b. b) oks = oks" using ok by (simp add: filter_id_conv)
  moreover have "length kvs = threads * Suc items"
    using interleaving_length[OF il] by (simp only: total_calls)
  ultimately have cnt: "add_count s' = of_nat (threads * items + threads)"
    using c lo s0(2) by (simp add: add.commute)
  have look: "\<exists>a. store_get_value (Some s') (Some (key_buffer t i)) h' = Inr (Some a, Some s')
                    \<and> live h' a = Some (if i = 0 then ''UPDATED_VALUE'' else value_buffer t)"
    if t: "t < threads" and i: "i < items" for t i
  proof -
    let ?v = "if i = 0 then ''UPDATED_VALUE'' else value_buffer t"
    have m: "map_of (entries s' h') (key_buffer t i) = Some ?v"
      unfolding E map_of_fold_update using schedule_final_value[OF il t i] by simp
    from lookup_spec[OF s'(2), of "key_buffer t i"] obtain r
      where r: "store_get_value (Some s') (Some (key_buffer t i)) h' = Inr (r, Some s')"
        and c: "case r of None \<Rightarrow> key_buffer t i \<notin> fst ` set (entries s' h')
               | Some a \<Rightarrow> \<exists>j<item_count s'. a = value (pairs s' ! j) \<and> live h' a \<noteq> None
                              \<and> entries s' h' ! j = (key_buffer t i, the (live h' a))"
        and mo: "map_option (\<lambda>a. the (live h' a)) r = map_of (entries s' h') (key_buffer t i)"
      by blast
    from mo m obtain a where a: "r = Some a" "the (live h' a) = ?v" by (cases r) auto
    with c have "live h' a \<noteq> None" by auto
    with a(2) have "live h' a = Some ?v" by auto
    with a(1) r show ?thesis by blast
  qed
  show ?thesis using s'(1,2) n cnt look by blast
qed

subsection \<open>Runs in which every allocation is granted\<close>

lemma length_update_le: "length (AList.update k v al) \<le> Suc (length al)"
  by (induction al) auto

lemma store_bytes_granted:
  assumes "n \<le> MAX_ROOM"
  shows "store_bytes n \<le> PTRDIFF_MAX"
proof -
  have "n \<le> 2 * MAX_ROOM" using assms by simp
  then have "store_bytes n = 64 + 16 * n" by (rule store_bytes_small)
  then show ?thesis using assms unfolding MAX_ROOM_eq PTRDIFF_MAX_def by simp
qed

lemma insert_granted:
  assumes "wf s h" "capacity s \<le> room s" "grants h = True # True # True # gs"
    and "item_count s = capacity s \<Longrightarrow> 2 * capacity s \<le> MAX_ROOM"
  shows "\<exists>s' h'. insert_item (s\<lparr>mutex := True\<rparr>) k v h = Inr (True, s', h')
           \<and> (grants h' = gs \<or> grants h' = True # gs)"
proof -
  have m: "\<not> mutex s" and le: "item_count s \<le> capacity s" and c: "0 < capacity s"
    using assms(1) by (auto simp: wf_def)
  show ?thesis
  proof (cases "item_count s = capacity s")
    case True
    have sb: "store_bytes (2 * capacity s) \<le> PTRDIFF_MAX"
      using assms(4)[OF True] by (rule store_bytes_granted)
    show ?thesis
      using assms(3) m c True sb
      by (simp add: insert_item_def grow_locked[OF assms(1)] duplicate_string_def grant_def free_def
                    mtx_unlock_def item_count_def)
  next
    case False
    then have "item_count s < room s" using le assms(2) by simp
    then show ?thesis
      using assms(3) m c False
      by (simp add: insert_item_def grow_locked[OF assms(1)] duplicate_string_def grant_def free_def
                    mtx_unlock_def item_count_def)
  qed
qed

lemma upsert_granted:
  assumes w: "wf s h" and cr: "capacity s \<le> room s"
    and g: "grants h = replicate m True" and m: "3 \<le> m"
    and cC: "capacity s \<le> C" and iC: "2 * item_count s \<le> C" and C: "C \<le> MAX_ROOM"
  shows "\<exists>s' h' m'. store_add_or_update_item (Some (Some s)) (Some k) (Some v) h
                       = Inr (True, Some (Some s'), h')
           \<and> wf s' h' \<and> capacity s' \<le> room s' \<and> capacity s' \<le> C
           \<and> item_count s' \<le> Suc (item_count s)
           \<and> grants h' = replicate m' True \<and> m \<le> m' + 3"
proof -
  have after: "capacity s' \<le> room s' \<and> capacity s' \<le> C \<and> item_count s' \<le> Suc (item_count s)"
    if r: "store_add_or_update_item (Some (Some s)) (Some k) (Some v) h = Inr (True, Some (Some s'), h')"
    for s' h'
    using w r
  proof (rule upsert_step)
    fix s1 assume s1: "Some (Some s') = Some (Some s1)"
      "entries s1 h' = (if True then AList.update k v (entries s h) else entries s h)"
      "room s1 = room s \<and> capacity s1 = capacity s
            \<or> room s1 = 2 * capacity s \<and> capacity s1 = 2 * capacity s
                \<and> item_count s = capacity s"
    have "length (entries s' h') \<le> Suc (length (entries s h))"
      using s1(1,2) length_update_le[of k v "entries s h"] by simp
    then have "item_count s' \<le> Suc (item_count s)" by (simp add: length_entries item_count_def)
    then show ?thesis using s1(1,3) cr cC iC by auto
  qed
  show ?thesis
  proof (cases "k \<in> fst ` set (entries s h)")
    case True
    obtain m1 where m1: "m = Suc m1" using m by (cases m) auto
    have g1: "grants h = True # replicate m1 True" using g m1 by simp
    from update_granted[OF w True g1, of v] obtain s' h'
      where r: "store_add_or_update_item (Some (Some s)) (Some k) (Some v) h = Inr (True, Some (Some s'), h')"
        and p: "wf s' h'" "grants h' = replicate m1 True" by blast
    from after[OF r] r p m1 show ?thesis
      by (intro exI[of _ s'] exI[of _ h'] exI[of _ m1]) simp
  next
    case False
    have mu: "\<not> mutex s" using w by (simp add: wf_def)
    define m3 where "m3 = m - 3"
    have m3: "m = Suc (Suc (Suc m3))" using m by (simp add: m3_def)
    have g3: "grants h = True # True # True # replicate m3 True" using g m3 by simp
    have f: "find_pair h (room s) (pairs s) k 0 = Inr None"
    proof -
      have "\<not> (\<exists>j. j < length (pairs s) \<and> fst (entries s h ! j) = k)"
      proof
        assume "\<exists>j. j < length (pairs s) \<and> fst (entries s h ! j) = k"
        then obtain j where j: "j < length (entries s h)" "fst (entries s h ! j) = k"
          by (auto simp: length_entries)
        from j(1) have "entries s h ! j \<in> set (entries s h)" by (rule nth_mem)
        then have "fst (entries s h ! j) \<in> fst ` set (entries s h)" by (rule imageI)
        with j(2) False show False by simp
      qed
      with find_pair_wf[OF w, of k] show ?thesis by blast
    qed
    have dbl: "2 * capacity s \<le> MAX_ROOM" if "item_count s = capacity s"
      using that iC C by simp
    from insert_granted[OF w cr g3 dbl, of k v] obtain s' h'
      where i: "insert_item (s\<lparr>mutex := True\<rparr>) k v h = Inr (True, s', h')"
        and gs: "grants h' = replicate m3 True \<or> grants h' = True # replicate m3 True" by blast
    have r: "store_add_or_update_item (Some (Some s)) (Some k) (Some v) h = Inr (True, Some (Some s'), h')"
      unfolding upsert_unfold[OF mu] f using i by simp
    from w r have w': "wf s' h'" by (rule upsert_step) simp
    note a = after[OF r]
    from gs show ?thesis
    proof
      assume "grants h' = replicate m3 True"
      with r w' m3 a show ?thesis by (intro exI[of _ s'] exI[of _ h'] exI[of _ m3]) simp
    next
      assume "grants h' = True # replicate m3 True"
      then have "grants h' = replicate (Suc m3) True" by simp
      with r w' m3 a show ?thesis by (intro exI[of _ s'] exI[of _ h'] exI[of _ "Suc m3"]) simp
    qed
  qed
qed

lemma upserts_granted:
  assumes "wf s h" "capacity s \<le> room s" "grants h = replicate m True" "3 * length kvs \<le> m"
    and "capacity s \<le> C" "2 * (item_count s + length kvs) \<le> C" "C \<le> MAX_ROOM"
  shows "\<exists>s' h'. upserts (map (\<lambda>kv. (Some (fst kv), Some (snd kv))) kvs) (Some (Some s)) h
                    = Inr (replicate (length kvs) True, Some (Some s'), h')"
  using assms
proof (induction kvs arbitrary: s h m)
  case Nil
  then show ?case by simp
next
  case (Cons c kvs)
  have "3 \<le> m" using Cons.prems(4) by simp
  moreover have "2 * item_count s \<le> C" using Cons.prems(6) by simp
  ultimately obtain s1 h1 m1
    where c: "store_add_or_update_item (Some (Some s)) (Some (fst c)) (Some (snd c)) h
                = Inr (True, Some (Some s1), h1)"
      and s1: "wf s1 h1" "capacity s1 \<le> room s1" "grants h1 = replicate m1 True" "m \<le> m1 + 3"
        "capacity s1 \<le> C" "item_count s1 \<le> Suc (item_count s)"
    using upsert_granted[OF Cons.prems(1,2,3) _ Cons.prems(5) _ Cons.prems(7), of "fst c" "snd c"]
    by blast
  have "3 * length kvs \<le> m1" using Cons.prems(4) s1(4) by simp
  moreover have "2 * (item_count s1 + length kvs) \<le> C" using Cons.prems(6) s1(6) by simp
  ultimately obtain s' h'
    where "upserts (map (\<lambda>kv. (Some (fst kv), Some (snd kv))) kvs) (Some (Some s1)) h1
                    = Inr (replicate (length kvs) True, Some (Some s'), h')"
    using Cons.IH[OF s1(1,2,3) _ s1(5) _ Cons.prems(7)] by blast
  with c show ?case by simp
qed

lemma created_run:
  assumes "10 + 2 * length kvs \<le> MAX_ROOM"
  shows "\<exists>s0 h0 s' h'.
      store_create 10 True (empty_heap (replicate (Suc (3 * length kvs)) True)) = Inr (Some s0, h0)
    \<and> upserts (map (\<lambda>kv. (Some (fst kv), Some (snd kv))) kvs) (Some (Some s0)) h0
        = Inr (replicate (length kvs) True, Some (Some s'), h')"
proof -
  let ?s0 = "\<lparr>mutex = False, add_count = 0, capacity = 10, pairs = [], room = 10\<rparr>"
  let ?h0 = "empty_heap (replicate (3 * length kvs) True)"
  have ten: "(10 :: nat) \<le> MAX_ROOM" by (simp add: MAX_ROOM_eq)
  have c: "store_create 10 True (empty_heap (replicate (Suc (3 * length kvs)) True))
           = Inr (Some ?s0, ?h0)"
    using create_eval[of 10 "replicate (3 * length kvs) True"] ten by simp
  have w: "wf ?s0 ?h0" using wf_empty_heap c by (rule create_wf)
  have g: "grants ?h0 = replicate (3 * length kvs) True" by (simp add: empty_heap_def)
  have "\<exists>s' h'. upserts (map (\<lambda>kv. (Some (fst kv), Some (snd kv))) kvs) (Some (Some ?s0)) ?h0
                    = Inr (replicate (length kvs) True, Some (Some s'), h')"
    using w _ g order_refl _ _ assms by (rule upserts_granted) (simp_all add: item_count_def)
  with c show ?thesis by blast
qed

lemma sequential_schedule:
  "interleaving (map (worker_thread items) [0..<threads])
     (concat (map (worker_thread items) [0..<threads]))"
  by (rule interleaving_concat)

lemma sequential_length:
  "length (concat (map (worker_thread items) [0..<threads])) = threads * Suc items"
  using interleaving_length[OF sequential_schedule, of items threads] by (simp only: total_calls)

lemma unat_of_nat_small: "n < 2 ^ 32 \<Longrightarrow> unat (of_nat n :: 32 word) = n"
  by (simp add: unat_of_nat)

lemma sequential_run:
  assumes "0 < items" "10 + 2 * (threads * Suc items) \<le> MAX_ROOM"
  shows "\<exists>s0 h0 s' h'.
      store_create 10 True (empty_heap (replicate (Suc (3 * (threads * Suc items))) True))
        = Inr (Some s0, h0)
    \<and> upserts (map (\<lambda>kv. (Some (fst kv), Some (snd kv)))
                 (concat (map (worker_thread items) [0..<threads]))) (Some (Some s0)) h0
        = Inr (replicate (threads * Suc items) True, Some (Some s'), h')
    \<and> item_count s' = threads * items
    \<and> add_count s' = of_nat (threads * items + threads)"
proof -
  let ?kvs = "concat (map (worker_thread items) [0..<threads])"
  have "10 + 2 * length ?kvs \<le> MAX_ROOM" using assms(2) by (simp only: sequential_length)
  from created_run[OF this, unfolded sequential_length] obtain s0 h0 s' h'
    where c: "store_create 10 True (empty_heap (replicate (Suc (3 * (threads * Suc items))) True))
                = Inr (Some s0, h0)"
      and r: "upserts (map (\<lambda>kv. (Some (fst kv), Some (snd kv))) ?kvs) (Some (Some s0)) h0
               = Inr (replicate (threads * Suc items) True, Some (Some s'), h')" by blast
  have ok: "\<forall>ok\<in>set (replicate (threads * Suc items) True). ok" by simp
  from schedule_effect[OF sequential_schedule assms(1) wf_empty_heap c r ok]
  have "item_count s' = threads * items" "add_count s' = of_nat (threads * items + threads)"
    by auto
  with c r show ?thesis by blast
qed

subsection \<open>Calls that return\<close>

lemma upsert_returns:
  assumes w: "wf s h" and cr: "capacity s \<le> room s"
  shows "\<exists>ok s' h'. store_add_or_update_item (Some (Some s)) k v h = Inr (ok, Some (Some s'), h')
           \<and> capacity s' \<le> room s'"
proof (cases "k = None \<or> v = None")
  case True
  then have "store_add_or_update_item (Some (Some s)) k v h = Inr (False, Some (Some s), h)"
    using upsert_null(3,4)[of "Some (Some s)"] by auto
  with cr show ?thesis by blast
next
  case False
  then obtain kb vb where kv: "k = Some kb" "v = Some vb" by auto
  from upsert_total[OF w cr, of kb vb] obtain b s' h'
    where r: "store_add_or_update_item (Some (Some s)) k v h = Inr (b, Some (Some s'), h')"
    unfolding kv by blast
  from w r have "capacity s' \<le> room s'"
  proof (rule upsert_any)
    fix t assume "Some (Some s') = Some (Some t)" "capacity s \<le> room s \<Longrightarrow> capacity t \<le> room t"
    then show ?thesis using cr by simp
  qed
  with r show ?thesis by blast
qed

lemma get_returns:
  assumes "wf s h"
  shows "\<exists>r. store_get_value (Some s) k h = Inr (r, Some s)"
proof (cases k)
  case None
  then show ?thesis using get_null(2)[of "Some s" h] by simp
next
  case (Some kb)
  then show ?thesis using get_wf[OF assms, of kb] by auto
qed

section \<open>The claims\<close>

text \<open>
  C1 (as amended). An upsert with non-null arguments on a well-formed store that returns
  \<open>false\<close> leaves the pairs, the number of entries, every key and value, the counter and
  every key block and value block of the heap as they were, and the store well-formed. The
  block of the store and the capacity are as they were too, except in one case: the key is
  new, the array is full and \<^verbatim>\<open>realloc\<close> has succeeded (the byte count of twice the
  capacity is one the allocator accepts, and it grants the request) before the copy of the
  key or of the value failed. Then \<^verbatim>\<open>realloc\<close> has replaced the block of the store by one
  with room for twice the capacity, and the capacity has doubled.
\<close>

theorem upsert_failure:
  assumes "wf s h"
    and "store_add_or_update_item (Some (Some s)) (Some k) (Some v) h = Inr (False, sp', h')"
  shows "\<exists>s'. sp' = Some (Some s') \<and> wf s' h' \<and> pairs s' = pairs s \<and> item_count s' = item_count s
           \<and> entries s' h' = entries s h \<and> add_count s' = add_count s \<and> live h' = live h
           \<and> capacity s' =
               (if k \<notin> fst ` set (entries s h) \<and> item_count s = capacity s
                   \<and> store_bytes (2 * capacity s) \<le> PTRDIFF_MAX
                   \<and> (\<exists>gs. grants h = True # gs)
                then 2 * capacity s else capacity s)
           \<and> room s' =
               (if k \<notin> fst ` set (entries s h) \<and> item_count s = capacity s
                   \<and> store_bytes (2 * capacity s) \<le> PTRDIFF_MAX
                   \<and> (\<exists>gs. grants h = True # gs)
                then 2 * capacity s else room s)"
  using assms
proof (cases rule: upsert_cases)
  case (update_ok j)
  then show ?thesis by simp
next
  case update_fail
  have "wf s h'" "entries s h' = entries s h"
    using wf_insert_fail[OF assms(1), of s h'] update_fail(4,5) by simp_all
  then show ?thesis using update_fail by simp
next
  case (insert_ok s')
  then show ?thesis by simp
next
  case (insert_fail s')
  have "wf s' h'" "entries s' h' = entries s h"
    using wf_insert_fail[OF assms(1) insert_fail(4,6,7,8,9,10)] by simp_all
  moreover have "capacity s' = (if item_count s = capacity s
                           \<and> store_bytes (2 * capacity s) \<le> PTRDIFF_MAX
                           \<and> (\<exists>gs. grants h = True # gs)
                        then 2 * capacity s else capacity s)
       \<and> room s' = (if item_count s = capacity s \<and> store_bytes (2 * capacity s) \<le> PTRDIFF_MAX
                           \<and> (\<exists>gs. grants h = True # gs)
                        then 2 * capacity s else room s)"
    using assms(1) insert_fail(3) assms(2)[unfolded insert_fail(2)] by (rule upsert_absent_capacity)
  ultimately show ?thesis using insert_fail(2,3,4,5,7) by (simp add: item_count_def)
qed

text \<open>The theorem at the full store of one entry, when growth is granted and the copy of
  the key refused.\<close>

theorem upsert_failure_witness:
  "wf full_store (full_heap [True, False])
   \<and> wf (full_store\<lparr>capacity := 2, room := 2\<rparr>) (full_heap [])
   \<and> entries (full_store\<lparr>capacity := 2, room := 2\<rparr>) (full_heap [])
       = entries full_store (full_heap [True, False])
   \<and> capacity (full_store\<lparr>capacity := 2, room := 2\<rparr>) = 2 * capacity full_store
   \<and> room (full_store\<lparr>capacity := 2, room := 2\<rparr>) = 2 * capacity full_store"
proof -
  have e: "''b'' \<notin> fst ` set (entries full_store (full_heap [True, False]))"
    by (simp add: entries_full_store)
  have f: "item_count full_store = capacity full_store"
    by (simp add: item_count_def full_store_def)
  have g: "\<exists>gs. grants (full_heap [True, False]) = True # gs"
    by (simp add: full_heap_def)
  have b: "store_bytes (2 * capacity full_store) \<le> PTRDIFF_MAX"
    by (simp add: full_store_def store_bytes_def PTRDIFF_MAX_def SIZE_MODULUS_def
          sizeof_KeyValueStore_def sizeof_KeyValuePair_def)
  from upsert_failure [OF wf_full_store full_store_insert_refused]
  show ?thesis using e f g b wf_full_store by auto
qed

text \<open>C1 as stated fails: after \<^verbatim>\<open>store_create(1)\<close> and the upsert of \<^verbatim>\<open>"a"\<close>, the upsert
  of \<^verbatim>\<open>"b"\<close> grows the array, fails to copy the key, reports failure, and leaves the
  capacity at 2 where it was 1.\<close>

theorem upsert_failure_counterexample:
  "session 1 True [(Some ''a'', Some ''x'')] (empty_heap [True, True, True, True, False])
   = Inr ([True], Some (Some full_store), full_heap [True, False])
   \<and> store_add_or_update_item (Some (Some full_store)) (Some ''b'') (Some ''y'')
       (full_heap [True, False])
     = Inr (False, Some (Some (full_store\<lparr>capacity := 2, room := 2\<rparr>)), full_heap [])
   \<and> capacity full_store = 1 \<and> capacity (full_store\<lparr>capacity := 2, room := 2\<rparr>) = 2"
  using full_store_created [of "[True, False]"] full_store_insert_refused
  by (simp add: full_store_def)

text \<open>
  C5. On a well-formed store that contains the key \<open>k\<close>, a successful upsert of \<open>k\<close> and \<open>v\<close>
  replaces the value of the entry of \<open>k\<close> by \<open>v\<close> and changes no other entry: the number
  of entries, the capacity and the key blocks are as before. The block of the previous value,
  allocated before the call, is released by it, and no block other than the previous and the
  new value differs between the two heaps.
\<close>

theorem update_overwrite:
  assumes "wf s h" and "k \<in> fst ` set (entries s h)"
    and "store_add_or_update_item (Some (Some s)) (Some k) (Some v) h = Inr (True, sp', h')"
  shows "\<exists>s' j. sp' = Some (Some s') \<and> wf s' h' \<and> j < item_count s \<and> fst (entries s h ! j) = k
           \<and> entries s' h' = (entries s h)[j := (k, v)]
           \<and> item_count s' = item_count s \<and> capacity s' = capacity s
           \<and> map key (pairs s') = map key (pairs s)
           \<and> live h (value (pairs s ! j)) \<noteq> None \<and> live h' (value (pairs s ! j)) = None
           \<and> (\<forall>a. a \<noteq> value (pairs s ! j) \<and> a \<noteq> value (pairs s' ! j) \<longrightarrow> live h' a = live h a)"
  using assms(1,3)
proof (cases rule: upsert_cases)
  case (update_ok j)
  let ?s' = "updated s j (brk h)"
  have w': "wf ?s' h'" using assms(1) update_ok(3,6,7) by (rule wf_updated(1))
  have e: "entries ?s' h' = (entries s h)[j := (k, v)]"
    using wf_updated(2)[OF assms(1) update_ok(3,6,7)] update_ok(4) by simp
  have old: "value (pairs s ! j) \<in> set (owned s)" using assms(1) update_ok(3) by (rule owned_nth)
  then have lv: "live h (value (pairs s ! j)) \<noteq> None" using assms(1) by (simp add: wf_def)
  have mk: "map key (pairs ?s') = map key (pairs s)"
  proof -
    have "map key (pairs ?s') = (map key (pairs s))[j := map key (pairs s) ! j]"
      using update_ok(3) by (simp add: updated_def map_update)
    then show ?thesis by (simp only: list_update_id)
  qed
  have new: "value (pairs ?s' ! j) = brk h" using update_ok(3) by (simp add: updated_def)
  have "\<forall>a. a \<noteq> value (pairs s ! j) \<and> a \<noteq> value (pairs ?s' ! j) \<longrightarrow> live h' a = live h a"
    unfolding new by (simp add: update_ok(6))
  moreover have "live h' (value (pairs s ! j)) = None" by (simp add: update_ok(6))
  moreover have "item_count ?s' = item_count s" "capacity ?s' = capacity s"
    by (simp_all add: updated_def item_count_def)
  ultimately show ?thesis
    using update_ok(2,3,4) w' e lv mk by (auto simp: item_count_def)
next
  case update_fail
  then show ?thesis by simp
next
  case (insert_ok s')
  then show ?thesis using assms(2) by simp
next
  case (insert_fail s')
  then show ?thesis by simp
qed

text \<open>The theorem at the store of one entry, whose value \<^verbatim>\<open>"x"\<close> becomes \<^verbatim>\<open>"z"\<close>.\<close>

theorem update_overwrite_witness:
  "wf full_store (full_heap [True]) \<and> ''a'' \<in> fst ` set (entries full_store (full_heap [True]))
   \<and> (\<exists>j. j < item_count full_store
        \<and> entries (updated full_store 0 2)
             \<lparr>live = (\<lambda>a. None)(0 \<mapsto> ''a'', 2 \<mapsto> ''z''), brk = 3, grants = []\<rparr>
           = (entries full_store (full_heap [True]))[j := (''a'', ''z'')]
        \<and> live (full_heap [True]) (value (pairs full_store ! j)) \<noteq> None)"
proof -
  have m: "''a'' \<in> fst ` set (entries full_store (full_heap [True]))"
    by (simp add: entries_full_store)
  from update_overwrite [OF wf_full_store m full_store_update]
  show ?thesis using m wf_full_store by blast
qed


text \<open>
  C2 (as amended). Along every sequence of upsert calls on a well-formed store, null arguments
  included, the counter \<^verbatim>\<open>add_count\<close> after the calls is the counter before them plus the
  number of calls that returned \<open>true\<close>, in the arithmetic of \<^verbatim>\<open>atomic_uint\<close>, that is
  modulo \<open>2 ^ 32\<close>: one more for each successful call, insert or update, and nothing for a
  failed call. From a counter of 0 it equals the number \<open>N\<close> of successful calls as long as
  \<open>N < 2 ^ 32\<close>.
\<close>

theorem mutation_counter:
  assumes "wf s h" and "upserts cs (Some (Some s)) h = Inr (oks, sp', h')"
  shows "\<exists>s'. sp' = Some (Some s') \<and> length oks = length cs
           \<and> add_count s' = add_count s + of_nat (length (filter (\<lambda>b. b) oks))
           \<and> (add_count s = 0 \<and> length (filter (\<lambda>b. b) oks) < 2 ^ 32
                \<longrightarrow> unat (add_count s') = length (filter (\<lambda>b. b) oks))"
proof -
  from upserts_wf[OF assms] obtain s' where s': "sp' = Some (Some s')" "length oks = length cs"
    "add_count s' = add_count s + of_nat (length (filter (\<lambda>b. b) oks))" by blast
  have "unat (add_count s') = length (filter (\<lambda>b. b) oks)"
    if "add_count s = 0" "length (filter (\<lambda>b. b) oks) < 2 ^ 32"
  proof -
    have "unat (of_nat (length (filter (\<lambda>b. b) oks)) :: 32 word) = length (filter (\<lambda>b. b) oks)"
      using that(2) by (simp add: unat_of_nat)
    then show ?thesis using s'(3) that(1) by simp
  qed
  then show ?thesis using s' by blast
qed

text \<open>The theorem on three calls: an update that succeeds, an insert whose growth is refused,
  a call with a null key.\<close>

theorem mutation_counter_witness:
  "wf full_store (full_heap [True, False])
   \<and> returned (upserts [(Some ''a'', Some ''z''), (Some ''b'', Some ''y''), (None, Some ''y'')]
        (Some (Some full_store)) (full_heap [True, False])) = Some [True, False, False]
   \<and> map_option add_count (final_store
        (upserts [(Some ''a'', Some ''z''), (Some ''b'', Some ''y''), (None, Some ''y'')]
        (Some (Some full_store)) (full_heap [True, False]))) = Some (1 + 1)"
proof -
  let ?cs = "[(Some ''a'', Some ''z''), (Some ''b'', Some ''y''), (None, Some ''y'')]"
  have r: "upserts ?cs (Some (Some full_store)) (full_heap [True, False])
    = Inr ([True, False, False], Some (Some (updated full_store 0 2)),
          \<lparr>live = (\<lambda>a. None)(0 \<mapsto> ''a'', 2 \<mapsto> ''z''), brk = 3, grants = []\<rparr>)"
    by (simp add: full_store_def full_heap_def upsert_eval updated_def fun_upd_twist)
  have c: "add_count full_store = 1" by (simp add: full_store_def)
  from mutation_counter [OF wf_full_store r]
  show ?thesis using wf_full_store unfolding r by (simp add: returned_def final_store_def c)
qed

text \<open>C2 as stated fails: \<open>2 ^ 32\<close> upserts of the same key on a fresh store all return
  \<open>true\<close>, and the counter is 0 after them.\<close>

theorem mutation_counter_counterexample:
  "returned (session 1 True (replicate 4294967296 (Some ''a'', Some ''x''))
              (empty_heap (replicate 4294967298 True)))
     = Some (replicate 4294967296 True)
   \<and> map_option add_count (final_store (session 1 True
              (replicate 4294967296 (Some ''a'', Some ''x''))
              (empty_heap (replicate 4294967298 True))))
     = Some 0"
proof -
  have n1: "Suc 4294967295 = 4294967296" and n2: "4294967295 + 3 = (4294967298 :: nat)"
    by simp_all
  have z: "(of_nat 4294967296 :: 32 word) = 0" by simp
  from many_upserts[of 4294967295, unfolded n1 n2] obtain s' h'
    where r: "session 1 True (replicate 4294967296 (Some ''a'', Some ''x''))
              (empty_heap (replicate 4294967298 True))
            = Inr (replicate 4294967296 True, Some (Some s'), h')"
      and a: "add_count s' = of_nat 4294967296" by blast
  show ?thesis unfolding r returned_def final_store_def using a z by simp
qed

text \<open>
  C3. In every store that upsert and lookup calls, with any arguments and any outcome of the
  allocations, produce from a freshly created store, whatever capacity was asked for, the
  keys of the entries are allocated strings that are pairwise different; every further call
  that returns keeps it so. A call that reads or writes behind the block of the store is a
  fault and produces no store. (\<^verbatim>\<open>store_destroy\<close> leaves no store behind.)
\<close>

theorem keys_distinct:
  assumes "reachable s h"
  shows "distinct (map fst (entries s h))
       \<and> (\<forall>p\<in>set (pairs s). live h (key p) \<noteq> None)
       \<and> (\<forall>s' h'. step (s, h) (s', h') \<longrightarrow> distinct (map fst (entries s' h')))"
proof -
  have w: "wf s h" using assms by (rule reachable_wf)
  have a: "distinct (map fst (entries s h))" using w by (simp add: wf_def)
  have b: "\<forall>p\<in>set (pairs s). live h (key p) \<noteq> None"
    using w by (auto simp: wf_def owned_def)
  have c: "distinct (map fst (entries s' h'))" if "step (s, h) (s', h')" for s' h'
    using step_wf[OF that w] by (simp add: wf_def)
  show ?thesis using a b c by blast
qed

text \<open>The theorem at the store of one entry and the update of its key.\<close>

theorem keys_distinct_witness:
  "reachable full_store (full_heap [True, True])
   \<and> distinct (map fst (entries full_store (full_heap [True, True])))
   \<and> step (full_store, full_heap [True, True]) (updated full_store 0 2,
        \<lparr>live = (\<lambda>a. None)(0 \<mapsto> ''a'', 2 \<mapsto> ''z''), brk = 3, grants = [True]\<rparr>)
   \<and> distinct (map fst (entries (updated full_store 0 2)
        \<lparr>live = (\<lambda>a. None)(0 \<mapsto> ''a'', 2 \<mapsto> ''z''), brk = 3, grants = [True]\<rparr>))"
proof -
  have "store_add_or_update_item (Some (Some full_store)) (Some ''a'') (Some ''z'') (full_heap [True, True])
   = Inr (True, Some (Some (updated full_store 0 2)),
          \<lparr>live = (\<lambda>a. None)(0 \<mapsto> ''a'', 2 \<mapsto> ''z''), brk = 3, grants = [True]\<rparr>)"
    by (simp add: full_store_def full_heap_def upsert_eval updated_def fun_upd_twist)
  then have st: "step (full_store, full_heap [True, True]) (updated full_store 0 2,
        \<lparr>live = (\<lambda>a. None)(0 \<mapsto> ''a'', 2 \<mapsto> ''z''), brk = 3, grants = [True]\<rparr>)"
    by (rule step_upsert)
  from keys_distinct [OF reachable_full_store, of "[True, True]"] st reachable_full_store
  show ?thesis by blast
qed

text \<open>
  C4. On a well-formed store, let upserts of pairwise different new keys all succeed, more of them
  than the capacity has room for. Then the array has grown, the entries are the previous
  entries followed by the inserted ones, in order and with their values, and a lookup of
  each of these keys returns its value.
\<close>

theorem no_loss_under_growth:
  assumes "wf s h" and "distinct (map fst kvs)" and "fst ` set kvs \<inter> fst ` set (entries s h) = {}"
    and "upserts (map (\<lambda>kv. (Some (fst kv), Some (snd kv))) kvs) (Some (Some s)) h = Inr (oks, sp', h')"
    and "\<forall>ok\<in>set oks. ok"
    and "capacity s < item_count s + length kvs"
  shows "\<exists>s'. sp' = Some (Some s') \<and> capacity s < capacity s'
           \<and> entries s' h' = entries s h @ kvs
           \<and> (\<forall>kv\<in>set (entries s h @ kvs).
                 \<exists>a. store_get_value (Some s') (Some (fst kv)) h' = Inr (Some a, Some s')
                      \<and> live h' a = Some (snd kv))"
proof -
  from upserts_all_ok[OF assms(1,4,5)] obtain s' where s': "sp' = Some (Some s')" "wf s' h'"
    "entries s' h' = fold (\<lambda>kv. AList.update (fst kv) (snd kv)) kvs (entries s h)" by blast
  have e: "entries s' h' = entries s h @ kvs"
    unfolding s'(3) using assms(2,3) by (rule fold_update_fresh)
  have "item_count s' = item_count s + length kvs"
    using arg_cong[OF e, of length] by (simp add: length_entries item_count_def)
  moreover have "item_count s' \<le> capacity s'" using s'(2) by (simp add: wf_def)
  ultimately have cap: "capacity s < capacity s'" using assms(6) by simp
  have d: "distinct (map fst (entries s' h'))" using s'(2) by (simp add: wf_def)
  have look: "\<exists>a. store_get_value (Some s') (Some (fst kv)) h' = Inr (Some a, Some s')
                      \<and> live h' a = Some (snd kv)" if "kv \<in> set (entries s' h')" for kv
  proof -
    from that have m: "map_of (entries s' h') (fst kv) = Some (snd kv)"
      using d by simp
    from lookup_spec[OF s'(2), of "fst kv"] obtain r
      where r: "store_get_value (Some s') (Some (fst kv)) h' = Inr (r, Some s')"
        and c: "case r of None \<Rightarrow> fst kv \<notin> fst ` set (entries s' h')
               | Some a \<Rightarrow> \<exists>j<item_count s'. a = value (pairs s' ! j) \<and> live h' a \<noteq> None
                              \<and> entries s' h' ! j = (fst kv, the (live h' a))"
        and mo: "map_option (\<lambda>a. the (live h' a)) r = map_of (entries s' h') (fst kv)"
      by blast
    from mo m obtain a where a: "r = Some a" "the (live h' a) = snd kv" by (cases r) auto
    with c have "live h' a \<noteq> None" by auto
    with a r show ?thesis by auto
  qed
  show ?thesis using s'(1) cap e look by (auto simp: e[symmetric])
qed

text \<open>The theorem at a fresh store of capacity 1 and three inserts, which grow it to 2 and
  to 4.\<close>

theorem no_loss_under_growth_witness:
  "wf \<lparr>mutex = False, add_count = 0, capacity = 1, pairs = [], room = 1\<rparr>
      (empty_heap (replicate 8 True))
   \<and> capacity grown_store = 4
   \<and> entries grown_store (grown_heap []) = [(''a'', ''x''), (''b'', ''y''), (''c'', ''z'')]
   \<and> (\<exists>a. store_get_value (Some grown_store) (Some ''a'') (grown_heap [])
                = Inr (Some a, Some grown_store)
            \<and> live (grown_heap []) a = Some ''x'')
   \<and> (\<exists>a. store_get_value (Some grown_store) (Some ''b'') (grown_heap [])
                = Inr (Some a, Some grown_store)
            \<and> live (grown_heap []) a = Some ''y'')
   \<and> (\<exists>a. store_get_value (Some grown_store) (Some ''c'') (grown_heap [])
                = Inr (Some a, Some grown_store)
            \<and> live (grown_heap []) a = Some ''z'')"
proof -
  let ?s = "\<lparr>mutex = False, add_count = 0, capacity = 1, pairs = [], room = 1\<rparr>"
  let ?h = "empty_heap (replicate 8 True)"
  let ?kvs = "[(''a'', ''x''), (''b'', ''y''), (''c'', ''z'')]"
  have w: "wf ?s ?h"
    by (simp add: wf_def heap_ok_def empty_heap_def item_count_def owned_def entries_def
          MAX_ROOM_eq)
  have e: "entries ?s ?h = []" by (simp add: entries_def)
  have d: "distinct (map fst ?kvs)" by simp
  have i: "fst ` set ?kvs \<inter> fst ` set (entries ?s ?h) = {}" by (simp add: entries_def)
  have r: "upserts (map (\<lambda>kv. (Some (fst kv), Some (snd kv))) ?kvs) (Some (Some ?s)) ?h
     = Inr ([True, True, True], Some (Some grown_store), grown_heap [])"
    using three_inserts[of "[]"] by simp
  have a: "\<forall>ok\<in>set [True, True, True]. ok" by simp
  have c: "capacity ?s < item_count ?s + length ?kvs" by (simp add: item_count_def)
  from no_loss_under_growth [OF w d i r a c]
  obtain s' where s': "Some (Some grown_store) = Some (Some s')"
    "entries s' (grown_heap []) = entries ?s ?h @ ?kvs"
    "\<forall>kv\<in>set (entries ?s ?h @ ?kvs).
        \<exists>a. store_get_value (Some s') (Some (fst kv)) (grown_heap []) = Inr (Some a, Some s')
           \<and> live (grown_heap []) a = Some (snd kv)" by blast
  have eq: "s' = grown_store" using s'(1) by simp
  have "capacity grown_store = 4" by (simp add: grown_store_def)
  then show ?thesis using w s'(2,3) unfolding eq e by simp
qed

text \<open>
  C6. In every store that calls produce from a freshly created one, whatever capacity was
  asked for, the number of entries is at most the capacity, which is at least 1, and at most
  the number of pairs the block of the store has room for. A further call that returns
  (upsert or lookup with any arguments, whatever it returns) leads to such a store again,
  never lowers the capacity, and changes it only by doubling it, only when the number of
  entries equals the capacity; such a call is an upsert of a key that is not in the store.
  A lookup leaves the store as it is. Where the block has room for the capacity, every upsert
  and every lookup returns, none reads or writes behind the block, and the block of the store
  after the call has room for its capacity again. (After \<^verbatim>\<open>store_create\<close> the block has
  room for the capacity whenever the byte count has not wrapped around: lemma
  \<open>create_valid\<close>.)
\<close>

theorem capacity_invariant:
  assumes "reachable s h"
  shows "item_count s \<le> capacity s \<and> 1 \<le> capacity s
       \<and> (\<forall>s' h'. step (s, h) (s', h') \<longrightarrow>
             reachable s' h' \<and> item_count s' \<le> capacity s' \<and> capacity s \<le> capacity s'
             \<and> (capacity s' \<noteq> capacity s \<longrightarrow>
                   capacity s' = 2 * capacity s \<and> item_count s = capacity s))
       \<and> (\<forall>k v ok s' h'.
             store_add_or_update_item (Some (Some s)) k v h = Inr (ok, Some (Some s'), h')
               \<and> capacity s' \<noteq> capacity s
             \<longrightarrow> (\<exists>kb. k = Some kb \<and> kb \<notin> fst ` set (entries s h)) \<and> v \<noteq> None)
       \<and> (\<forall>k r s'. store_get_value (Some s) k h = Inr (r, Some s') \<longrightarrow> s' = s)
       \<and> item_count s \<le> room s
       \<and> (capacity s \<le> room s \<longrightarrow>
             (\<forall>k v. \<exists>ok s' h'.
                 store_add_or_update_item (Some (Some s)) k v h = Inr (ok, Some (Some s'), h')
                   \<and> capacity s' \<le> room s')
           \<and> (\<forall>k. \<exists>r. store_get_value (Some s) k h = Inr (r, Some s)))"
proof -
  have w: "wf s h" using assms by (rule reachable_wf)
  have a: "item_count s \<le> capacity s" "1 \<le> capacity s" "item_count s \<le> room s"
    using w by (simp_all add: wf_def)
  have b: "reachable s' h' \<and> item_count s' \<le> capacity s' \<and> capacity s \<le> capacity s'
             \<and> (capacity s' \<noteq> capacity s \<longrightarrow>
                   capacity s' = 2 * capacity s \<and> item_count s = capacity s)"
    if st: "step (s, h) (s', h')" for s' h'
  proof -
    have r': "reachable s' h'" using assms st by (rule reachable_step)
    have "wf s' h'" using r' by (rule reachable_wf)
    then have "item_count s' \<le> capacity s'" by (simp add: wf_def)
    with r' step_wf[OF st w] show ?thesis by auto
  qed
  have c: "(\<exists>kb. k = Some kb \<and> kb \<notin> fst ` set (entries s h)) \<and> v \<noteq> None"
    if r: "store_add_or_update_item (Some (Some s)) k v h = Inr (ok, Some (Some s'), h')"
      and ne: "capacity s' \<noteq> capacity s" for k v ok s' h'
  proof (cases "k = None \<or> v = None")
    case True
    then have "s' = s" using r upsert_null(3,4)[of "Some (Some s)"] by auto
    with ne show ?thesis by simp
  next
    case False
    then obtain kb vb where kv: "k = Some kb" "v = Some vb" by auto
    from w r[unfolded kv] show ?thesis
    proof (rule upsert_step)
      fix t assume "Some (Some s') = Some (Some t)"
        "capacity t = capacity s \<or>
           capacity t = 2 * capacity s \<and> item_count s = capacity s \<and> kb \<notin> fst ` set (entries s h)"
      then show ?thesis using ne kv by auto
    qed
  qed
  have d: "s' = s" if g: "store_get_value (Some s) k h = Inr (r, Some s')" for k r s'
  proof (cases k)
    case None then show ?thesis using g get_null(2)[of "Some s" h] by simp
  next
    case (Some kb)
    then show ?thesis using g get_wf[OF w, of kb] by auto
  qed
  have e: "\<exists>ok s' h'. store_add_or_update_item (Some (Some s)) k v h = Inr (ok, Some (Some s'), h')
                   \<and> capacity s' \<le> room s'"
    if "capacity s \<le> room s" for k v
    using w that by (rule upsert_returns)
  have f: "\<exists>r. store_get_value (Some s) k h = Inr (r, Some s)" for k
    using w by (rule get_returns)
  show ?thesis using a b c d e f by blast
qed

text \<open>The theorem at the full store of one entry and the insert that grows it.\<close>

theorem capacity_invariant_witness:
  "reachable full_store (full_heap [True, True, True])
   \<and> step (full_store, full_heap [True, True, True])
        (\<lparr>mutex = False, add_count = 2, capacity = 2,
           pairs = [\<lparr>key = 0, value = 1\<rparr>, \<lparr>key = 2, value = 3\<rparr>], room = 2\<rparr>,
         \<lparr>live = (\<lambda>a. None)(0 \<mapsto> ''a'', 1 \<mapsto> ''x'', 2 \<mapsto> ''b'', 3 \<mapsto> ''y''),
           brk = 4, grants = []\<rparr>)
   \<and> item_count full_store \<le> capacity full_store
   \<and> capacity \<lparr>mutex = False, add_count = 2, capacity = 2,
           pairs = [\<lparr>key = 0, value = 1\<rparr>, \<lparr>key = 2, value = 3\<rparr>], room = 2\<rparr>
       = 2 * capacity full_store
   \<and> item_count full_store = capacity full_store
   \<and> capacity full_store \<le> room full_store"
proof -
  let ?h = "full_heap [True, True, True]"
  let ?s2 = "\<lparr>mutex = False, add_count = 2, capacity = 2,
           pairs = [\<lparr>key = 0, value = 1\<rparr>, \<lparr>key = 2, value = 3\<rparr>], room = 2\<rparr>"
  let ?h2 = "\<lparr>live = (\<lambda>a. None)(0 \<mapsto> ''a'', 1 \<mapsto> ''x'', 2 \<mapsto> ''b'', 3 \<mapsto> ''y''),
           brk = 4, grants = []\<rparr>"
  have r: "reachable full_store ?h" by (rule reachable_full_store)
  have st: "step (full_store, ?h) (?s2, ?h2)"
    using full_store_insert by (rule step_upsert)
  have ne: "capacity ?s2 \<noteq> capacity full_store" by (simp add: full_store_def)
  have cr: "capacity full_store \<le> room full_store" by (simp add: full_store_def)
  note t = capacity_invariant [OF r]
  from t have a: "item_count full_store \<le> capacity full_store" by (rule conjunct1)
  from t have "\<forall>s' h'. step (full_store, ?h) (s', h') \<longrightarrow>
             reachable s' h' \<and> item_count s' \<le> capacity s' \<and> capacity full_store \<le> capacity s'
             \<and> (capacity s' \<noteq> capacity full_store \<longrightarrow>
                   capacity s' = 2 * capacity full_store \<and> item_count full_store = capacity full_store)"
    by (elim conjE)
  then have "capacity ?s2 \<noteq> capacity full_store \<longrightarrow>
                   capacity ?s2 = 2 * capacity full_store \<and> item_count full_store = capacity full_store"
    using st by blast
  with ne have "capacity ?s2 = 2 * capacity full_store \<and> item_count full_store = capacity full_store"
    by (rule mp[rotated])
  with r st a cr show ?thesis by (intro conjI) (erule conjunct1 conjunct2 | assumption)+
qed

text \<open>
  C7. On a well-formed store, a lookup of \<open>k\<close> returns and leaves the store as it was (the
  function has no access to the allocator). If an entry has the key \<open>k\<close> it returns the
  address of the value block of that entry, whose content is the value associated with \<open>k\<close>;
  otherwise it returns \<^verbatim>\<open>NULL\<close>.
\<close>

theorem lookup_result:
  assumes "wf s h"
  shows "\<exists>r. store_get_value (Some s) (Some k) h = Inr (r, Some s)
           \<and> (case r of
                 None \<Rightarrow> k \<notin> fst ` set (entries s h)
               | Some a \<Rightarrow> \<exists>j<item_count s. a = value (pairs s ! j) \<and> live h a \<noteq> None
                              \<and> entries s h ! j = (k, the (live h a)))
           \<and> map_option (\<lambda>a. the (live h a)) r = map_of (entries s h) k"
  using assms by (rule lookup_spec)

text \<open>The theorem at the store of one entry.\<close>

theorem lookup_result_witness:
  "wf full_store (full_heap [])
   \<and> store_get_value (Some full_store) (Some ''a'') (full_heap []) = Inr (Some 1, Some full_store)
   \<and> map_option (\<lambda>a. the (live (full_heap []) a)) (Some 1) = map_of (entries full_store (full_heap [])) ''a''"
  using lookup_result [where s = full_store and h = "full_heap []" and k = "''a''", OF wf_full_store]
    wf_full_store [of "[]"]
  by (auto simp: full_store_lookup)

text \<open>
  C8. \<^verbatim>\<open>store_create\<close> does not return a valid store or a failure for every
  \<^verbatim>\<open>initial_capacity\<close>: the byte count of its \<^verbatim>\<open>malloc\<close> is computed in \<^verbatim>\<open>size_t\<close> and
  wraps around. For \<^verbatim>\<open>(size_t)1 << 60\<close> the byte count is 64; the block, once granted, holds
  the struct and no pair, \<^verbatim>\<open>store_create\<close> returns a store whose capacity is \<open>2 ^ 60\<close>, and
  the first insert into it, whose copies of key and value are granted, writes the pair behind
  the block. For \<^verbatim>\<open>SIZE_MAX\<close> the byte count is 48, less than the struct, and
  \<^verbatim>\<open>store_create\<close> itself writes \<^verbatim>\<open>item_count\<close> behind the block.
\<close>

theorem create_overflow:
  "store_bytes (unat (1152921504606846976 :: size_t)) = 64
   \<and> store_create 1152921504606846976 True (empty_heap [True, True, True])
       = Inr (Some \<lparr>mutex = False, add_count = 0, capacity = 1152921504606846976, pairs = [],
                    room = 0\<rparr>, empty_heap [True, True])
   \<and> session 1152921504606846976 True [(Some ''a'', Some ''x'')] (empty_heap [True, True, True])
       = Inl Out_Of_Bounds
   \<and> store_bytes (unat (18446744073709551615 :: size_t)) = 48
   \<and> store_create 18446744073709551615 True (empty_heap [True]) = Inl Out_Of_Bounds"
  by (simp add: session_def store_create_def empty_heap_def upsert_eval)

text \<open>
  C9 (as amended). The threads call the store with \<^verbatim>\<open>main_mutex\<close> held, so the calls of
  \<open>threads\<close> workers happen one at a time, in some interleaving of the workers' own
  sequences. For every such interleaving on the store of \<^verbatim>\<open>store_create(10)\<close>, with
  \<open>items\<close> keys per worker (at least one) and every call returning \<open>true\<close>: the store
  has \<open>threads * items\<close> entries, the counter is \<open>threads * items + threads\<close> modulo
  \<open>2 ^ 32\<close> (that number itself when it is below \<open>2 ^ 32\<close>), and a lookup of the key
  \<open>i\<close> of worker \<open>t\<close> returns \<^verbatim>\<open>"UPDATED_VALUE"\<close> for \<open>i = 0\<close> and the worker's value
  otherwise. With the program's 4 threads and 100 items: 400 entries, counter 404.
\<close>

theorem concurrency_stress:
  assumes "interleaving (map (worker_thread items) [0..<threads]) kvs"
    and "0 < items"
    and "heap_ok h" and "store_create 10 mtx_ok h = Inr (Some s0, h0)"
    and "upserts (map (\<lambda>kv. (Some (fst kv), Some (snd kv))) kvs) (Some (Some s0)) h0
           = Inr (oks, sp', h')"
    and "\<forall>ok\<in>set oks. ok"
  shows "\<exists>s'. sp' = Some (Some s') \<and> item_count s' = threads * items
           \<and> add_count s' = of_nat (threads * items + threads)
           \<and> (threads * items + threads < 2 ^ 32
                 \<longrightarrow> unat (add_count s') = threads * items + threads)
           \<and> (threads = NUM_THREADS \<and> items = ITEMS_PER_THREAD
                 \<longrightarrow> item_count s' = 400 \<and> unat (add_count s') = 404)
           \<and> (\<forall>t<threads. \<forall>i<items.
                 \<exists>a. store_get_value (Some s') (Some (key_buffer t i)) h' = Inr (Some a, Some s')
                    \<and> live h' a = Some (if i = 0 then ''UPDATED_VALUE'' else value_buffer t))"
proof -
  from schedule_effect[OF assms] obtain s' where s': "sp' = Some (Some s')"
    "item_count s' = threads * items" "add_count s' = of_nat (threads * items + threads)"
    "\<forall>t<threads. \<forall>i<items.
        \<exists>a. store_get_value (Some s') (Some (key_buffer t i)) h' = Inr (Some a, Some s')
           \<and> live h' a = Some (if i = 0 then ''UPDATED_VALUE'' else value_buffer t)"
    by blast
  have u: "unat (add_count s') = threads * items + threads"
    if "threads * items + threads < 2 ^ 32"
  proof -
    have "unat (of_nat (threads * items + threads) :: 32 word) = threads * items + threads"
      using that by (rule unat_of_nat_small)
    then show ?thesis by (simp only: s'(3))
  qed
  have d: "item_count s' = 400 \<and> unat (add_count s') = 404"
    if "threads = NUM_THREADS \<and> items = ITEMS_PER_THREAD"
  proof -
    have e: "threads = 4" "items = 100" using that by (simp_all add: NUM_THREADS_def ITEMS_PER_THREAD_def)
    have "threads * items + threads < 2 ^ 32" unfolding e by simp
    from u[OF this] s'(2) show ?thesis unfolding e by simp
  qed
  show ?thesis using s' u d by blast
qed

text \<open>The theorem at the program's own numbers, for the schedule that runs the four workers
  one after the other.\<close>

theorem concurrency_stress_witness:
  "interleaving (map (worker_thread ITEMS_PER_THREAD) [0..<NUM_THREADS])
     (concat (map (worker_thread ITEMS_PER_THREAD) [0..<NUM_THREADS]))
   \<and> map_option item_count (final_store
        (session 10 True
           (map (\<lambda>kv. (Some (fst kv), Some (snd kv)))
              (concat (map (worker_thread ITEMS_PER_THREAD) [0..<NUM_THREADS])))
           (empty_heap (replicate 1213 True)))) = Some 400
   \<and> map_option add_count (final_store
        (session 10 True
           (map (\<lambda>kv. (Some (fst kv), Some (snd kv)))
              (concat (map (worker_thread ITEMS_PER_THREAD) [0..<NUM_THREADS])))
           (empty_heap (replicate 1213 True)))) = Some 404"
proof -
  let ?kvs = "concat (map (worker_thread ITEMS_PER_THREAD) [0..<NUM_THREADS])"
  have il: "interleaving (map (worker_thread ITEMS_PER_THREAD) [0..<NUM_THREADS]) ?kvs"
    by (rule sequential_schedule)
  have items: "0 < ITEMS_PER_THREAD" by (simp add: ITEMS_PER_THREAD_def)
  have len: "length ?kvs = 404"
    unfolding sequential_length by (simp add: NUM_THREADS_def ITEMS_PER_THREAD_def)
  have g: "Suc (3 * length ?kvs) = 1213" unfolding len by simp
  have bd: "10 + 2 * length ?kvs \<le> MAX_ROOM" unfolding len by (simp add: MAX_ROOM_eq)
  from created_run[OF bd, unfolded g] obtain s0 h0 s' h'
    where c: "store_create 10 True (empty_heap (replicate 1213 True)) = Inr (Some s0, h0)"
      and r: "upserts (map (\<lambda>kv. (Some (fst kv), Some (snd kv))) ?kvs) (Some (Some s0)) h0
               = Inr (replicate (length ?kvs) True, Some (Some s'), h')" by blast
  have ok: "\<forall>ok\<in>set (replicate (length ?kvs) True). ok" by simp
  from concurrency_stress [OF il items wf_empty_heap c r ok]
  have "item_count s' = 400" "unat (add_count s') = 404" by auto
  then have "item_count s' = 400" "add_count s' = 404"
    by (simp_all add: word_unat_eq_iff)
  moreover have "session 10 True (map (\<lambda>kv. (Some (fst kv), Some (snd kv))) ?kvs)
           (empty_heap (replicate 1213 True))
         = Inr (replicate (length ?kvs) True, Some (Some s'), h')"
    by (simp only: session_def c r sum.case prod.case)
  ultimately show ?thesis using il by (simp add: final_store_def)
qed

text \<open>C9 as stated fails for the counter: with the program's 4 workers and \<open>2 ^ 30\<close> items
  each, run one after the other with every call returning \<open>true\<close>, the store has
  \<open>2 ^ 32\<close> entries and the counter is 4, not \<open>2 ^ 32 + 4\<close>.\<close>

theorem concurrency_stress_counterexample:
  "interleaving (map (worker_thread 1073741824) [0..<4])
     (concat (map (worker_thread 1073741824) [0..<4]))
   \<and> returned
        (session 10 True
           (map (\<lambda>kv. (Some (fst kv), Some (snd kv)))
              (concat (map (worker_thread 1073741824) [0..<4])))
           (empty_heap (replicate 12884901901 True)))
      = Some (replicate 4294967300 True)
   \<and> map_option item_count (final_store
        (session 10 True
           (map (\<lambda>kv. (Some (fst kv), Some (snd kv)))
              (concat (map (worker_thread 1073741824) [0..<4])))
           (empty_heap (replicate 12884901901 True))))
      = Some 4294967296
   \<and> map_option add_count (final_store
        (session 10 True
           (map (\<lambda>kv. (Some (fst kv), Some (snd kv)))
              (concat (map (worker_thread 1073741824) [0..<4])))
           (empty_heap (replicate 12884901901 True))))
      = Some 4"
proof -
  have n1: "4 * Suc 1073741824 = (4294967300 :: nat)" by simp
  have n2: "Suc (3 * 4294967300) = (12884901901 :: nat)" by simp
  have n3: "4 * 1073741824 = (4294967296 :: nat)" by simp
  have n4: "(of_nat (4294967296 + 4) :: 32 word) = 4" by simp
  have pos: "0 < (1073741824 :: nat)" by simp
  have bd: "10 + 2 * (4 * Suc 1073741824) \<le> MAX_ROOM" by (simp add: MAX_ROOM_eq)
  from sequential_run[OF pos bd, unfolded n1 n2 n3 n4] obtain s0 h0 s' h'
    where c: "store_create 10 True (empty_heap (replicate 12884901901 True)) = Inr (Some s0, h0)"
      and r: "upserts (map (\<lambda>kv. (Some (fst kv), Some (snd kv)))
                 (concat (map (worker_thread 1073741824) [0..<4]))) (Some (Some s0)) h0
               = Inr (replicate 4294967300 True, Some (Some s'), h')"
      and n: "item_count s' = 4294967296" and a: "add_count s' = 4" by blast
  have il: "interleaving (map (worker_thread 1073741824) [0..<4])
     (concat (map (worker_thread 1073741824) [0..<4]))" by (rule sequential_schedule)
  have se: "session 10 True
           (map (\<lambda>kv. (Some (fst kv), Some (snd kv)))
              (concat (map (worker_thread 1073741824) [0..<4])))
           (empty_heap (replicate 12884901901 True))
         = Inr (replicate 4294967300 True, Some (Some s'), h')"
    by (simp only: session_def c r sum.case prod.case)
  have r1: "returned (Inr (replicate 4294967300 True, Some (Some s'), h'))
              = Some (replicate 4294967300 True)"
    by (simp only: returned_def sum.case prod.case)
  have r2: "final_store (Inr (replicate 4294967300 True, Some (Some s'), h')) = Some s'"
    by (simp only: final_store_def sum.case prod.case option.case)
  show ?thesis
    unfolding se r1 r2 option.map n a
    using il by (intro conjI refl)
qed

text \<open>
  C10. An upsert with a null \<open>store_ptr\<close>, with a \<open>store_ptr\<close> that points to \<^verbatim>\<open>NULL\<close>,
  with a null key or with a null value returns \<open>false\<close> and leaves the store variable and
  the heap as they are; a lookup in a null store or of a null key returns \<^verbatim>\<open>NULL\<close> and
  leaves the store as it is; \<^verbatim>\<open>store_destroy(NULL)\<close> does nothing.
\<close>

theorem null_arguments:
  "store_add_or_update_item None k v h = Inr (False, None, h)
   \<and> store_add_or_update_item (Some None) k v h = Inr (False, Some None, h)
   \<and> store_add_or_update_item store_ptr None v h = Inr (False, store_ptr, h)
   \<and> store_add_or_update_item store_ptr k None h = Inr (False, store_ptr, h)
   \<and> store_get_value None k h = Inr (None, None)
   \<and> store_get_value store None h = Inr (None, store)
   \<and> store_destroy None h = Inr h"
  by (simp add: upsert_null get_null store_destroy_def)


text \<open>The theorem at the store of one entry.\<close>

theorem null_arguments_witness:
  "store_add_or_update_item (Some (Some full_store)) None (Some ''y'') (full_heap [True])
     = Inr (False, Some (Some full_store), full_heap [True])
   \<and> store_get_value (Some full_store) None (full_heap [True]) = Inr (None, Some full_store)
   \<and> store_destroy None (full_heap [True]) = Inr (full_heap [True])"
proof -
  note t = null_arguments [where k = None and v = "Some ''y''" and h = "full_heap [True]"
      and store_ptr = "Some (Some full_store)" and store = "Some full_store"]
  from t show ?thesis by (elim conjE) (intro conjI, assumption+)
qed


end
